theory Spec2Isabelle
  imports Main "HOL-Library.Word" "HOL-Library.Signed_Division"
begin

section \<open>Segment reductions of \<^verbatim>\<open>src/cpu/segment.cpp\<close>\<close>

text \<open>
  The embedding follows \<^verbatim>\<open>segment.cpp\<close> line by line.

  \<^item> \<^verbatim>\<open>scalar_t\<close> is the \<^verbatim>\<open>int64_t\<close> instance of \<^verbatim>\<open>AT_DISPATCH_ALL_TYPES\<close>: a 64-bit word
    whose \<open>+\<close> wraps around, compared as a signed value, divided with truncation
    towards zero. The floating-point instances are not modelled.
  \<^item> Index values (\<^verbatim>\<open>int64_t\<close>) and the loop counters are mathematical integers and
    naturals: buffers are taken to be smaller than \<open>2 ^ 31\<close> elements, so that no
    counter overflows. The \<^verbatim>\<open>int count\<close> parameter of \<^verbatim>\<open>Reducer::write\<close> is a 32-bit
    word and the callers narrow into it.
  \<^item> A tensor is its size vector, its stride vector and its storage. A pointer into a
    buffer is the pair of the buffer and an offset; every load and store checks the
    offset, and an access outside the buffer is the error \<open>OutOfBounds\<close>.
  \<^item> Every exception, failed assertion and arithmetic trap is a value of type
    \<open>error\<close>; a function that can fail returns \<open>error + 'a\<close>.
  \<^item> \<^verbatim>\<open>assert\<close> checks its argument only in a build without the macro \<^verbatim>\<open>NDEBUG\<close>. The
    COO reducer takes the build as its first argument.
  \<^item> All tensors live on the CPU, so \<^verbatim>\<open>CHECK_CPU\<close> always passes.
\<close>

subsection \<open>Errors and sequencing\<close>

datatype error =
    OutOfRange          \<comment> \<open>\<^verbatim>\<open>std::map::at\<close> on a missing key\<close>
  | InputMismatch       \<comment> \<open>\<^verbatim>\<open>AT_ASSERTM(..., "Input mismatch")\<close>\<close>
  | AssertionFailed     \<comment> \<open>\<^verbatim>\<open>assert(idx <= next_idx)\<close>, without \<^verbatim>\<open>NDEBUG\<close>\<close>
  | IndexError          \<comment> \<open>\<^verbatim>\<open>Tensor::size\<close> with a dimension out of range\<close>
  | ExpandError         \<comment> \<open>\<^verbatim>\<open>Tensor::expand\<close> to an incompatible shape\<close>
  | NegativeDimension   \<comment> \<open>\<^verbatim>\<open>torch::empty\<close> with a negative size\<close>
  | DivisionByZero      \<comment> \<open>integer division by zero\<close>
  | OutOfBounds         \<comment> \<open>load or store outside a buffer\<close>
  | NullPointer         \<comment> \<open>store through \<^verbatim>\<open>nullptr\<close>\<close>

definition bnd :: "error + 'a \<Rightarrow> ('a \<Rightarrow> error + 'b) \<Rightarrow> error + 'b" where
  "bnd m f = (case m of Inl e \<Rightarrow> Inl e | Inr x \<Rightarrow> f x)"

text \<open>A \<^verbatim>\<open>for\<close> loop over the values \<open>xs\<close>, left to right, stopping at the first error.\<close>

fun foldE :: "('a \<Rightarrow> 's \<Rightarrow> error + 's) \<Rightarrow> 'a list \<Rightarrow> 's \<Rightarrow> error + 's" where
  "foldE f [] s = Inr s"
| "foldE f (x # xs) s = bnd (f x s) (foldE f xs)"

definition load :: "'a list \<Rightarrow> int \<Rightarrow> error + 'a" where
  "load buf i = (if 0 \<le> i \<and> i < int (length buf) then Inr (buf ! nat i) else Inl OutOfBounds)"

definition store :: "'a list \<Rightarrow> int \<Rightarrow> 'a \<Rightarrow> error + 'a list" where
  "store buf i v =
     (if 0 \<le> i \<and> i < int (length buf) then Inr (buf[nat i := v]) else Inl OutOfBounds)"

definition store_opt :: "'a list option \<Rightarrow> int \<Rightarrow> 'a \<Rightarrow> error + 'a list option" where
  "store_opt buf i v =
     (case buf of None \<Rightarrow> Inl NullPointer | Some b \<Rightarrow> bnd (store b i v) (\<lambda>b'. Inr (Some b')))"

subsection \<open>Reduction kinds\<close>

datatype ReductionType = SUM' | MEAN | MIN' | MAX'

definition reduce2REDUCE :: "string \<rightharpoonup> ReductionType" where
  "reduce2REDUCE =
     map_of [(''sum'', SUM'), (''add'', SUM'), (''mean'', MEAN), (''min'', MIN'), (''max'', MAX')]"

text \<open>\<^verbatim>\<open>reduce2REDUCE.at(reduce)\<close>\<close>

definition reduce2REDUCE_at :: "string \<Rightarrow> error + ReductionType" where
  "reduce2REDUCE_at reduce =
     (case reduce2REDUCE reduce of None \<Rightarrow> Inl OutOfRange | Some r \<Rightarrow> Inr r)"

definition AT_DISPATCH_REDUCTION_TYPES ::
  "string \<Rightarrow> (ReductionType \<Rightarrow> error + 'a) \<Rightarrow> error + 'a" where
  "AT_DISPATCH_REDUCTION_TYPES reduce f = bnd (reduce2REDUCE_at reduce) f"

subsection \<open>The reducer\<close>

type_synonym scalar_t = "64 word"

definition scalar_max :: scalar_t where
  "scalar_max = 9223372036854775807"

definition scalar_lowest :: scalar_t where
  "scalar_lowest = - 9223372036854775808"

definition Reducer_init :: "ReductionType \<Rightarrow> scalar_t" where
  "Reducer_init REDUCE =
     (if REDUCE = MIN' then scalar_max
      else if REDUCE = MAX' then scalar_lowest
      else 0)"

text \<open>
  \<^verbatim>\<open>Reducer::update\<close> takes the cells \<^verbatim>\<open>*val\<close> and \<^verbatim>\<open>*arg\<close> and returns their new contents.
\<close>

definition Reducer_update ::
  "ReductionType \<Rightarrow> scalar_t \<Rightarrow> scalar_t \<Rightarrow> int \<Rightarrow> int \<Rightarrow> scalar_t \<times> int" where
  "Reducer_update REDUCE val new_val arg new_arg =
     (if REDUCE = SUM' \<or> REDUCE = MEAN then (val + new_val, arg)
      else if (REDUCE = MIN' \<and> new_val <s val) \<or> (REDUCE = MAX' \<and> val <s new_val)
        then (new_val, new_arg)
      else (val, arg))"

text \<open>Division of \<^verbatim>\<open>int64_t\<close>: it traps on a zero divisor and truncates towards zero.\<close>

definition scalar_div :: "scalar_t \<Rightarrow> scalar_t \<Rightarrow> error + scalar_t" where
  "scalar_div a b =
     (if b = 0 then Inl DivisionByZero else Inr (word_of_int (sint a sdiv sint b)))"

text \<open>
  \<^verbatim>\<open>Reducer::write(address, val, arg_address, arg, count)\<close>: \<open>address\<close> is the value buffer with
  an offset, \<open>arg_address\<close> the argument buffer (\<open>None\<close> for \<^verbatim>\<open>nullptr\<close>) with an offset.
  The result is the two buffers after the call.
\<close>

definition Reducer_write ::
  "ReductionType \<Rightarrow> scalar_t list \<times> int \<Rightarrow> scalar_t \<Rightarrow> int list option \<times> int \<Rightarrow> int
     \<Rightarrow> 32 word \<Rightarrow> error + (scalar_t list \<times> int list option)" where
  "Reducer_write REDUCE address val arg_address arg count =
     (if REDUCE = SUM' then
        bnd (store (fst address) (snd address) val) (\<lambda>out. Inr (out, fst arg_address))
      else if REDUCE = MEAN then
        bnd (scalar_div val (if 0 <s count then scast count else 1)) (\<lambda>q.
        bnd (store (fst address) (snd address) q) (\<lambda>out. Inr (out, fst arg_address)))
      else if REDUCE = MIN' \<or> REDUCE = MAX' then
        (if 0 <s count then
           bnd (store (fst address) (snd address) val) (\<lambda>out.
           bnd (store_opt (fst arg_address) (snd arg_address) arg) (\<lambda>arg_out.
           Inr (out, arg_out)))
         else
           bnd (store (fst address) (snd address) 0) (\<lambda>out. Inr (out, fst arg_address)))
      else Inr (fst address, fst arg_address))"

subsection \<open>Tensors\<close>

record 'a Tensor =
  sizes :: "nat list"
  strides :: "int list"
  data :: "'a list"

definition dim :: "'a Tensor \<Rightarrow> nat" where
  "dim t = length (sizes t)"

definition numel :: "'a Tensor \<Rightarrow> nat" where
  "numel t = prod_list (sizes t)"

text \<open>\<^verbatim>\<open>t.size(d)\<close>: a negative \<open>d\<close> counts from the last dimension.\<close>

definition tsize :: "'a Tensor \<Rightarrow> int \<Rightarrow> error + nat" where
  "tsize t d =
     (if - int (dim t) \<le> d \<and> d < int (dim t)
      then Inr (sizes t ! nat (if d < 0 then d + int (dim t) else d))
      else Inl IndexError)"

text \<open>The strides of a row-major tensor of the given sizes.\<close>

fun contiguous_strides :: "nat list \<Rightarrow> int list" where
  "contiguous_strides [] = []"
| "contiguous_strides (n # ns) = int (prod_list ns) # contiguous_strides ns"

text \<open>
  \<^verbatim>\<open>t.expand(new_sizes)\<close> with as many sizes as \<open>t\<close> has dimensions: a dimension of size
  1 is repeated with stride 0, every other dimension has to keep its size.
\<close>

definition expand :: "'a Tensor \<Rightarrow> nat list \<Rightarrow> error + 'a Tensor" where
  "expand t new_sizes =
     (if length new_sizes = dim t \<and>
         list_all (\<lambda>(old, new). old = new \<or> old = 1) (zip (sizes t) new_sizes)
      then Inr \<lparr>sizes = new_sizes,
                strides = map (\<lambda>((old, new), st). if old = new then st else 0)
                              (zip (zip (sizes t) new_sizes) (strides t)),
                data = data t\<rparr>
      else Inl ExpandError)"

text \<open>
  Modelled from the spec: the header \<^verbatim>\<open>index_info.h\<close> with \<^verbatim>\<open>getTensorInfo\<close>,
  \<^verbatim>\<open>IndexToOffset\<close> and \<^verbatim>\<open>IndexPtrToOffset\<close> is not part of the sources. The spec's
  resolver is the row-major unravelling of the logical index into one coordinate per
  dimension, multiplied with the strides; \<open>offset_of\<close> takes the dimensions, each with
  its size and stride, from the last one to the first. \<^verbatim>\<open>getTensorInfo\<close> is the identity:
  a tensor already is its sizes, strides and storage.
\<close>

fun offset_of :: "nat \<Rightarrow> (nat \<times> int) list \<Rightarrow> int" where
  "offset_of idx [] = 0"
| "offset_of idx ((sz, st) # ds) = int (idx mod sz) * st + offset_of (idx div sz) ds"

text \<open>
  Modelled from the spec: \<^verbatim>\<open>IndexToOffset::get(idx, info)\<close> of the missing header, the
  offset of the logical index \<open>idx\<close> in the storage of \<open>info\<close>.
\<close>

definition IndexToOffset_get :: "nat \<Rightarrow> 'a Tensor \<Rightarrow> int" where
  "IndexToOffset_get idx info = offset_of idx (rev (zip (sizes info) (strides info)))"

text \<open>
  Modelled from the spec: \<^verbatim>\<open>IndexPtrToOffset::get(idx, info)\<close> of the missing header. For
  the offsets of the CSR form the last dimension holds one entry more than there are
  groups, so the logical index is unravelled over \<open>size - 1\<close> groups in the last
  dimension.
\<close>

definition IndexPtrToOffset_get :: "nat \<Rightarrow> 'a Tensor \<Rightarrow> int" where
  "IndexPtrToOffset_get idx info =
     (case rev (zip (sizes info) (strides info)) of
        [] \<Rightarrow> 0
      | (sz, st) # ds \<Rightarrow> offset_of idx ((sz - 1, st) # ds))"

text \<open>
  \<^verbatim>\<open>t.contiguous()\<close>: the elements of \<open>t\<close> in row-major order. The host runtime hands
  over tensors whose storage holds every element they address.
\<close>

definition contiguous :: "'a Tensor \<Rightarrow> 'a Tensor" where
  "contiguous t =
     \<lparr>sizes = sizes t, strides = contiguous_strides (sizes t),
      data = map (\<lambda>i. data t ! nat (IndexToOffset_get i t)) [0..<numel t]\<rparr>"

text \<open>
  \<^verbatim>\<open>torch::empty(sizes, options)\<close>: the new storage holds whatever the allocator
  returns; \<open>mem\<close> gives that content. A negative size is refused.
\<close>

definition torch_empty :: "int list \<Rightarrow> (nat \<Rightarrow> 'a) \<Rightarrow> error + 'a Tensor" where
  "torch_empty szs mem =
     (if list_all (\<lambda>n. 0 \<le> n) szs
      then Inr \<lparr>sizes = map nat szs, strides = contiguous_strides (map nat szs),
                data = map mem [0..<prod_list (map nat szs)]\<rparr>
      else Inl NegativeDimension)"

definition full_like :: "'a Tensor \<Rightarrow> 'b \<Rightarrow> 'b Tensor" where
  "full_like t v =
     \<lparr>sizes = sizes t, strides = contiguous_strides (sizes t),
      data = replicate (numel t) v\<rparr>"

subsection \<open>The CSR reducer\<close>

text \<open>
  The variables the two kernels keep between iterations: the accumulators \<^verbatim>\<open>vals\<close> and
  \<^verbatim>\<open>args\<close>, and the buffers behind \<^verbatim>\<open>out_data\<close> and \<^verbatim>\<open>arg_out_data\<close> (\<open>None\<close> for
  \<^verbatim>\<open>nullptr\<close>).
\<close>

record kstate =
  vals :: "scalar_t list"
  args :: "int list"
  out_data :: "scalar_t list"
  arg_out_data :: "int list option"

text \<open>Lines 143-144: one call of \<^verbatim>\<open>update\<close> for lane \<open>k\<close> at source position \<open>e\<close>.\<close>

definition csr_update_lane ::
  "ReductionType \<Rightarrow> scalar_t list \<Rightarrow> int \<Rightarrow> nat \<Rightarrow> int \<Rightarrow> nat \<Rightarrow> kstate \<Rightarrow> error + kstate" where
  "csr_update_lane REDUCE src_data offset K e k st =
     bnd (load src_data (offset + e * int K + int k)) (\<lambda>new_val.
       let (val, arg) = Reducer_update REDUCE (vals st ! k) new_val (args st ! k) e
       in Inr (st\<lparr>vals := (vals st)[k := val], args := (args st)[k := arg]\<rparr>))"

text \<open>Lines 148-150: one call of \<^verbatim>\<open>write\<close> for lane \<open>k\<close> of group \<open>n\<close>.\<close>

definition csr_write_lane ::
  "ReductionType \<Rightarrow> nat \<Rightarrow> nat \<Rightarrow> 32 word \<Rightarrow> nat \<Rightarrow> kstate \<Rightarrow> error + kstate" where
  "csr_write_lane REDUCE n K count k st =
     bnd (Reducer_write REDUCE (out_data st, int (n * K + k)) (vals st ! k)
            (arg_out_data st, int (n * K + k)) (args st ! k) count)
       (\<lambda>(out, arg_out). Inr (st\<lparr>out_data := out, arg_out_data := arg_out\<rparr>))"

text \<open>
  Lines 133-151, the body of the loop over the groups. \<open>last_size\<close> is \<^verbatim>\<open>indptr.size(-1)\<close>.
\<close>

definition csr_group ::
  "ReductionType \<Rightarrow> int Tensor \<Rightarrow> int \<Rightarrow> nat \<Rightarrow> scalar_t list \<Rightarrow> nat \<Rightarrow> nat \<Rightarrow> nat
     \<Rightarrow> kstate \<Rightarrow> error + kstate" where
  "csr_group REDUCE indptr_info stride last_size src_data E K n st =
     (let offset = IndexPtrToOffset_get n indptr_info in
      bnd (load (data indptr_info) offset) (\<lambda>row_start.
      bnd (load (data indptr_info) (offset + stride)) (\<lambda>row_end.
      if int last_size - 1 = 0 then Inl DivisionByZero
      else
        let offset = (int n sdiv (int last_size - 1)) * int E * int K;
            st = fold (\<lambda>k st. st\<lparr>vals := (vals st)[k := Reducer_init REDUCE]\<rparr>) [0..<K] st
        in
        bnd (foldE (\<lambda>e. foldE (csr_update_lane REDUCE src_data offset K e) [0..<K])
               [row_start..row_end - 1] st) (\<lambda>st.
        foldE (csr_write_lane REDUCE n K (word_of_int (row_end - row_start))) [0..<K] st))))"

text \<open>Lines 128-153: both vectors are value-initialised, then the groups are reduced.\<close>

definition segment_csr_kernel ::
  "string \<Rightarrow> int Tensor \<Rightarrow> int \<Rightarrow> nat \<Rightarrow> scalar_t list \<Rightarrow> nat \<Rightarrow> nat \<Rightarrow> nat
     \<Rightarrow> scalar_t list \<Rightarrow> int list option \<Rightarrow> error + kstate" where
  "segment_csr_kernel reduce indptr_info stride last_size src_data N K E out_buf arg_out_buf =
     AT_DISPATCH_REDUCTION_TYPES reduce (\<lambda>REDUCE.
       foldE (csr_group REDUCE indptr_info stride last_size src_data E K) [0..<N]
         \<lparr>vals = replicate K 0, args = replicate K 0,
          out_data = out_buf, arg_out_data = arg_out_buf\<rparr>)"

text \<open>
  Lines 100-102 and 179-181: the sizes of \<open>src\<close> and \<open>out\<close> agree outside the reduced
  dimension.
\<close>

definition check_sizes :: "'a Tensor \<Rightarrow> 'b Tensor \<Rightarrow> int \<Rightarrow> error + unit" where
  "check_sizes src out reduce_dim =
     foldE (\<lambda>i u.
         if int i \<noteq> reduce_dim then
           bnd (tsize src (int i)) (\<lambda>a.
           bnd (tsize out (int i)) (\<lambda>b.
           if a = b then Inr u else Inl InputMismatch))
         else Inr u)
       [0..<dim out] ()"

text \<open>
  Lines 111-116 and 183-188: the argument output exists for \<^verbatim>\<open>min\<close> and \<^verbatim>\<open>max\<close> only
  and is filled with \<^verbatim>\<open>src.size(reduce_dim)\<close>.
\<close>

definition alloc_arg_out ::
  "scalar_t Tensor \<Rightarrow> scalar_t Tensor \<Rightarrow> int \<Rightarrow> string \<Rightarrow> error + int Tensor option" where
  "alloc_arg_out src out reduce_dim reduce =
     bnd (reduce2REDUCE_at reduce) (\<lambda>r.
     if r = MIN' \<or> r = MAX' then
       bnd (tsize src reduce_dim) (\<lambda>E. Inr (Some (full_like out (int E))))
     else Inr None)"

text \<open>
  Lines 85-116: validation, broadcasting of \<open>indptr\<close>, the output and the argument
  output. The result is \<open>(src, indptr, out, arg_out)\<close> as they are at line 117.
\<close>

definition segment_csr_prepare ::
  "scalar_t Tensor \<Rightarrow> int Tensor \<Rightarrow> scalar_t Tensor option \<Rightarrow> string \<Rightarrow> (nat \<Rightarrow> scalar_t)
     \<Rightarrow> error + (scalar_t Tensor \<times> int Tensor \<times> scalar_t Tensor \<times> int Tensor option)" where
  "segment_csr_prepare src indptr out_opt reduce mem =
     (if \<not> dim indptr \<le> dim src then Inl InputMismatch
      else
        bnd (expand indptr
               (fold (\<lambda>i sz. sz[i := sizes src ! i]) [0..<dim indptr - 1] (sizes indptr)))
          (\<lambda>indptr.
        let src = contiguous src;
            reduce_dim = int (dim indptr) - 1
        in
        bnd (case out_opt of
               Some out_value \<Rightarrow>
                 let out = contiguous out_value in
                 bnd (check_sizes src out reduce_dim) (\<lambda>_.
                 bnd (tsize out reduce_dim) (\<lambda>a.
                 bnd (tsize indptr reduce_dim) (\<lambda>b.
                 if int a = int b - 1 then Inr out else Inl InputMismatch)))
             | None \<Rightarrow>
                 bnd (tsize indptr reduce_dim) (\<lambda>b.
                 torch_empty ((map int (sizes src))[nat reduce_dim := int b - 1]) mem))
          (\<lambda>out.
        bnd (alloc_arg_out src out reduce_dim reduce) (\<lambda>arg_out.
        Inr (src, indptr, out, arg_out)))))"

text \<open>The tensor \<open>t\<close> seen after the kernel has written through its data pointer.\<close>

definition with_data :: "'a Tensor option \<Rightarrow> 'a list option \<Rightarrow> 'a Tensor option" where
  "with_data t buf =
     (case (t, buf) of (Some t', Some d) \<Rightarrow> Some (t'\<lparr>data := d\<rparr>) | _ \<Rightarrow> None)"

text \<open>
  Lines 118-123: the number of groups \<open>N\<close>, the number of lanes \<open>K\<close>, the length \<open>E\<close> of
  the reduced dimension of \<open>src\<close>, \<^verbatim>\<open>indptr.size(-1)\<close> and the last stride of \<open>indptr\<close>.
\<close>

definition csr_dims ::
  "scalar_t Tensor \<Rightarrow> int Tensor \<Rightarrow> scalar_t Tensor \<Rightarrow> error + (nat \<times> nat \<times> nat \<times> nat \<times> int)" where
  "csr_dims src indptr out =
     (let reduce_dim = int (dim indptr) - 1 in
      bnd (tsize out reduce_dim) (\<lambda>out_groups.
      bnd (tsize indptr (- 1)) (\<lambda>last_size.
      if last_size = 0 then Inl DivisionByZero
      else
        let N = out_groups * (numel indptr div last_size) in
        if N = 0 then Inl DivisionByZero
        else
          let K = numel out div N in
          bnd (tsize src reduce_dim) (\<lambda>E.
          bnd (load (strides indptr) (int (dim indptr) - 1)) (\<lambda>stride.
          Inr (N, K, E, last_size, stride))))))"

text \<open>Lines 77-157.\<close>

definition segment_csr ::
  "scalar_t Tensor \<Rightarrow> int Tensor \<Rightarrow> scalar_t Tensor option \<Rightarrow> string \<Rightarrow> (nat \<Rightarrow> scalar_t)
     \<Rightarrow> error + (scalar_t Tensor \<times> int Tensor option)" where
  "segment_csr src0 indptr0 out_opt reduce mem =
     bnd (segment_csr_prepare src0 indptr0 out_opt reduce mem) (\<lambda>(src, indptr, out, arg_out).
     bnd (csr_dims src indptr out) (\<lambda>(N, K, E, last_size, stride).
     bnd (segment_csr_kernel reduce indptr stride last_size (data src) N K E
            (data out) (map_option data arg_out)) (\<lambda>st.
     Inr (out\<lparr>data := out_data st\<rparr>, with_data arg_out (arg_out_data st)))))"

subsection \<open>The COO reducer\<close>

text \<open>The COO kernel also keeps the current group \<^verbatim>\<open>idx\<close> and \<^verbatim>\<open>row_start\<close>.\<close>

record coo_state = kstate +
  idx :: int
  row_start :: int

text \<open>Lines 217-218: one call of \<^verbatim>\<open>update\<close> for lane \<open>k\<close> at position \<open>(e_1, e_2)\<close>.\<close>

definition coo_update_lane ::
  "ReductionType \<Rightarrow> scalar_t list \<Rightarrow> nat \<Rightarrow> nat \<Rightarrow> nat \<Rightarrow> nat \<Rightarrow> nat
     \<Rightarrow> coo_state \<Rightarrow> error + coo_state" where
  "coo_update_lane REDUCE src_data E_2 K e_1 e_2 k st =
     bnd (load src_data (int (e_1 * E_2 * K + e_2 * K + k))) (\<lambda>new_val.
       let (val, arg) = Reducer_update REDUCE (vals st ! k) new_val (args st ! k) (int e_2)
       in Inr (st\<lparr>vals := (vals st)[k := val], args := (args st)[k := arg]\<rparr>))"

text \<open>
  Lines 223-226 and 234-237: one call of \<^verbatim>\<open>write\<close> for lane \<open>k\<close> of the current group
  \<^verbatim>\<open>idx\<close> of block \<open>e_1\<close>, with \<^verbatim>\<open>count = e_2 + 1 - row_start\<close>.
\<close>

definition coo_write_lane ::
  "ReductionType \<Rightarrow> nat \<Rightarrow> nat \<Rightarrow> nat \<Rightarrow> nat \<Rightarrow> nat \<Rightarrow> coo_state \<Rightarrow> error + coo_state" where
  "coo_write_lane REDUCE N K e_1 e_2 k st =
     bnd (Reducer_write REDUCE
            (out_data st, int (e_1 * N * K) + idx st * int K + int k) (vals st ! k)
            (arg_out_data st, int (e_1 * N * K) + idx st * int K + int k) (args st ! k)
            (word_of_int (int e_2 + 1 - row_start st)))
       (\<lambda>(out, arg_out). Inr (st\<lparr>out_data := out, arg_out_data := arg_out\<rparr>))"

text \<open>Line 210 and line 239: \<^verbatim>\<open>vals[k] = out_data[pos]\<close>.\<close>

definition coo_seed_lane :: "int \<Rightarrow> nat \<Rightarrow> coo_state \<Rightarrow> error + coo_state" where
  "coo_seed_lane pos k st =
     bnd (load (out_data st) pos) (\<lambda>v. Inr (st\<lparr>vals := (vals st)[k := v]\<rparr>))"

text \<open>
  Lines 216-245, the body of the loop over \<open>e_2\<close>. \<open>offset\<close> is the offset of the first
  index of block \<open>e_1\<close>.

  Line 230 is the \<^verbatim>\<open>assert\<close> macro of \<^verbatim>\<open><cassert>\<close>. Whether it checks anything is
  decided where the file is compiled: with the macro \<^verbatim>\<open>NDEBUG\<close> defined, \<^verbatim>\<open>assert(c)\<close>
  expands to nothing and \<open>c\<close> is not evaluated; without it, a false \<open>c\<close> aborts the program.
  The build is not part of \<^verbatim>\<open>segment.cpp\<close>, so \<open>NDEBUG\<close> is a parameter of the step, of
  the block, of the kernel and of \<^verbatim>\<open>segment_coo\<close>: \<open>True\<close> when the macro is defined.
\<close>

definition coo_step ::
  "bool \<Rightarrow> ReductionType \<Rightarrow> int Tensor \<Rightarrow> int \<Rightarrow> int \<Rightarrow> scalar_t list \<Rightarrow> nat \<Rightarrow> nat \<Rightarrow> nat \<Rightarrow> nat
     \<Rightarrow> nat \<Rightarrow> coo_state \<Rightarrow> error + coo_state" where
  "coo_step NDEBUG REDUCE index_info stride offset src_data E_2 K N e_1 e_2 st0 =
     bnd (foldE (coo_update_lane REDUCE src_data E_2 K e_1 e_2) [0..<K] st0) (\<lambda>st.
     if int e_2 = int E_2 - 1 then
       foldE (coo_write_lane REDUCE N K e_1 e_2) [0..<K] st
     else
       bnd (load (data index_info) (offset + (int e_2 + 1) * stride)) (\<lambda>next_idx.
       if \<not> NDEBUG \<and> \<not> idx st \<le> next_idx then Inl AssertionFailed
       else
         bnd (if idx st \<noteq> next_idx then
                bnd (foldE (\<lambda>k st'.
                       bnd (coo_write_lane REDUCE N K e_1 e_2 k st')
                         (coo_seed_lane (int (e_1 * N * K) + next_idx * int K + int k) k))
                     [0..<K] st)
                  (\<lambda>st'. Inr (st'\<lparr>row_start := int e_2 + 1\<rparr>))
              else Inr st)
           (\<lambda>st'. Inr (st'\<lparr>idx := next_idx\<rparr>))))"

text \<open>Lines 206-246, the body of the loop over the outer blocks.\<close>

definition coo_block ::
  "bool \<Rightarrow> ReductionType \<Rightarrow> int Tensor \<Rightarrow> int \<Rightarrow> scalar_t list \<Rightarrow> nat \<Rightarrow> nat \<Rightarrow> nat \<Rightarrow> nat
     \<Rightarrow> coo_state \<Rightarrow> error + coo_state" where
  "coo_block NDEBUG REDUCE index_info stride src_data E_2 K N e_1 st0 =
     (let offset = IndexToOffset_get (e_1 * E_2) index_info in
      bnd (load (data index_info) offset) (\<lambda>first_idx.
      bnd (foldE (\<lambda>k. coo_seed_lane (int (e_1 * N * K + k)) k) [0..<K]
             (st0\<lparr>idx := first_idx\<rparr>)) (\<lambda>st.
      foldE (coo_step NDEBUG REDUCE index_info stride offset src_data E_2 K N e_1) [0..<E_2]
        (st\<lparr>row_start := 0\<rparr>))))"

text \<open>
  Lines 201-248. \<^verbatim>\<open>idx\<close> and \<^verbatim>\<open>row_start\<close> are assigned before they are read; they start
  at 0 here.
\<close>

definition segment_coo_kernel ::
  "bool \<Rightarrow> string \<Rightarrow> int Tensor \<Rightarrow> int \<Rightarrow> scalar_t list \<Rightarrow> nat \<Rightarrow> nat \<Rightarrow> nat \<Rightarrow> nat
     \<Rightarrow> scalar_t list \<Rightarrow> int list option \<Rightarrow> error + coo_state" where
  "segment_coo_kernel NDEBUG reduce index_info stride src_data E_1 E_2 K N out_buf arg_out_buf =
     AT_DISPATCH_REDUCTION_TYPES reduce (\<lambda>REDUCE.
       foldE (coo_block NDEBUG REDUCE index_info stride src_data E_2 K N) [0..<E_1]
         \<lparr>vals = replicate K 0, args = replicate K 0,
          out_data = out_buf, arg_out_data = arg_out_buf, idx = 0, row_start = 0\<rparr>)"

text \<open>
  Lines 166-188: validation, broadcasting of \<open>index\<close> and the argument output. The
  result is \<open>(src, index, out, arg_out)\<close> as they are at line 189.
\<close>

definition segment_coo_prepare ::
  "scalar_t Tensor \<Rightarrow> int Tensor \<Rightarrow> scalar_t Tensor \<Rightarrow> string
     \<Rightarrow> error + (scalar_t Tensor \<times> int Tensor \<times> scalar_t Tensor \<times> int Tensor option)" where
  "segment_coo_prepare src index out reduce =
     (if \<not> dim index \<le> dim src then Inl InputMismatch
      else
        bnd (expand index
               (fold (\<lambda>i sz. sz[i := sizes src ! i]) [0..<dim index] (sizes index)))
          (\<lambda>index.
        let src = contiguous src;
            out = contiguous out;
            reduce_dim = int (dim index) - 1
        in
        bnd (check_sizes src out reduce_dim) (\<lambda>_.
        bnd (alloc_arg_out src out reduce_dim reduce) (\<lambda>arg_out.
        Inr (src, index, out, arg_out)))))"

text \<open>
  Lines 190-196: the number of outer blocks \<open>E_1\<close>, the length \<open>E_2\<close> of the reduced
  dimension of \<open>src\<close>, the number of lanes \<open>K\<close>, the number of groups \<open>N\<close> of \<open>out\<close> and the
  last stride of \<open>index\<close>.
\<close>

definition coo_dims ::
  "scalar_t Tensor \<Rightarrow> int Tensor \<Rightarrow> scalar_t Tensor \<Rightarrow> error + (nat \<times> nat \<times> nat \<times> nat \<times> int)" where
  "coo_dims src index out =
     (let reduce_dim = int (dim index) - 1 in
      bnd (tsize src reduce_dim) (\<lambda>E_2.
      if E_2 = 0 then Inl DivisionByZero
      else
        let E_1 = numel index div E_2 in
        if numel index = 0 then Inl DivisionByZero
        else
          let K = numel src div numel index in
          bnd (tsize out reduce_dim) (\<lambda>N.
          bnd (load (strides index) (int (dim index) - 1)) (\<lambda>stride.
          Inr (E_1, E_2, K, N, stride)))))"

text \<open>Lines 159-252.\<close>

definition segment_coo ::
  "bool \<Rightarrow> scalar_t Tensor \<Rightarrow> int Tensor \<Rightarrow> scalar_t Tensor \<Rightarrow> string
     \<Rightarrow> error + (scalar_t Tensor \<times> int Tensor option)" where
  "segment_coo NDEBUG src0 index0 out0 reduce =
     bnd (segment_coo_prepare src0 index0 out0 reduce) (\<lambda>(src, index, out, arg_out).
     bnd (coo_dims src index out) (\<lambda>(E_1, E_2, K, N, stride).
     bnd (segment_coo_kernel NDEBUG reduce index stride (data src) E_1 E_2 K N
            (data out) (map_option data arg_out)) (\<lambda>st.
     Inr (out\<lparr>data := out_data st\<rparr>, with_data arg_out (arg_out_data st)))))"

subsection \<open>Predicates used in the proofs\<close>

definition written_value :: "ReductionType \<Rightarrow> scalar_t \<Rightarrow> 32 word \<Rightarrow> scalar_t" where
  "written_value REDUCE val count =
     (if REDUCE = SUM' then val
      else if REDUCE = MEAN then word_of_int (sint val sdiv max (sint count) 1)
      else if 0 <s count then val else 0)"

definition writes_arg :: "ReductionType \<Rightarrow> 32 word \<Rightarrow> bool" where
  "writes_arg REDUCE count \<longleftrightarrow> (REDUCE = MIN' \<or> REDUCE = MAX') \<and> 0 <s count"

definition same_outside :: "nat \<Rightarrow> nat \<Rightarrow> 'a list \<Rightarrow> 'a list \<Rightarrow> bool" where
  "same_outside lo hi xs ys \<longleftrightarrow>
     length ys = length xs \<and> (\<forall>p < length xs. p < lo \<or> hi \<le> p \<longrightarrow> ys ! p = xs ! p)"

definition write_loop_inv ::
  "ReductionType \<Rightarrow> nat \<Rightarrow> 32 word \<Rightarrow> kstate \<Rightarrow> nat \<Rightarrow> kstate \<Rightarrow> bool" where
  "write_loop_inv R base c st k t \<longleftrightarrow>
     vals t = vals st \<and> args t = args st \<and>
     same_outside base (base + k) (out_data st) (out_data t) \<and>
     (\<forall>j<k. base + j < length (out_data st)) \<and>
     (\<forall>j<k. out_data t ! (base + j) = written_value R (vals st ! j) c) \<and>
     (if writes_arg R c
      then rel_option
             (\<lambda>b b'. same_outside base (base + k) b b' \<and> (\<forall>j<k. b' ! (base + j) = args st ! j))
             (arg_out_data st) (arg_out_data t)
      else arg_out_data t = arg_out_data st)"

definition keeps_at :: "nat \<Rightarrow> 'a list option \<Rightarrow> 'a list option \<Rightarrow> bool" where
  "keeps_at p ao ao' \<longleftrightarrow>
     rel_option (\<lambda>b b'. length b' = length b \<and> (p < length b \<longrightarrow> b' ! p = b ! p)) ao ao'"

definition csr_empty_inv ::
  "nat \<Rightarrow> nat \<Rightarrow> scalar_t list \<Rightarrow> int list option \<Rightarrow> nat \<Rightarrow> nat \<Rightarrow> kstate \<Rightarrow> bool" where
  "csr_empty_inv K p out ao n i t \<longleftrightarrow>
     length (vals t) = K \<and> length (out_data t) = length out \<and> keeps_at p ao (arg_out_data t) \<and>
     (n < i \<longrightarrow> p < length out \<and> out_data t ! p = 0)"

definition eq_upto :: "nat \<Rightarrow> kstate \<Rightarrow> kstate \<Rightarrow> bool" where
  "eq_upto m s t \<longleftrightarrow>
     vals s = vals t \<and> args s = args t \<and> arg_out_data s = arg_out_data t \<and>
     length (out_data s) = length (out_data t) \<and> take m (out_data s) = take m (out_data t)"

definition tensor_1d :: "'a list \<Rightarrow> 'a Tensor" where
  "tensor_1d xs = \<lparr>sizes = [length xs], strides = [1], data = xs\<rparr>"

definition index_at :: "int Tensor \<Rightarrow> int \<Rightarrow> nat \<Rightarrow> nat \<Rightarrow> nat \<Rightarrow> error + int" where
  "index_at index_info stride E_2 e_1 e_2 =
     load (data index_info) (IndexToOffset_get (e_1 * E_2) index_info + int e_2 * stride)"

definition coo_frame :: "(nat \<Rightarrow> bool) \<Rightarrow> coo_state \<Rightarrow> coo_state \<Rightarrow> bool" where
  "coo_frame W s t \<longleftrightarrow>
     length (vals t) = length (vals s) \<and> length (args t) = length (args s) \<and>
     length (out_data t) = length (out_data s) \<and>
     rel_option (\<lambda>b b'. length b' = length b) (arg_out_data s) (arg_out_data t) \<and>
     (\<forall>p < length (out_data s). \<not> W p \<longrightarrow> out_data t ! p = out_data s ! p)"

definition slot :: "nat \<Rightarrow> nat \<Rightarrow> nat \<Rightarrow> int \<Rightarrow> nat \<Rightarrow> bool" where
  "slot N K e_1 i p \<longleftrightarrow> (\<exists>k<K. int p = int (e_1 * N * K) + i * int K + int k)"

definition block_slots :: "int Tensor \<Rightarrow> int \<Rightarrow> nat \<Rightarrow> nat \<Rightarrow> nat \<Rightarrow> nat \<Rightarrow> nat \<Rightarrow> bool" where
  "block_slots index_info stride E_2 N K e_1 p \<longleftrightarrow>
     (\<exists>e_2<E_2. \<exists>i. index_at index_info stride E_2 e_1 e_2 = Inr i \<and> slot N K e_1 i p)"

definition block_sorted :: "int Tensor \<Rightarrow> int \<Rightarrow> nat \<Rightarrow> nat \<Rightarrow> bool" where
  "block_sorted index_info stride E_2 e_1 \<longleftrightarrow>
     (\<forall>e_2<E_2. \<exists>i. index_at index_info stride E_2 e_1 e_2 = Inr i) \<and>
     (\<forall>e_2. Suc e_2 < E_2 \<longrightarrow>
        (\<forall>a b. index_at index_info stride E_2 e_1 e_2 = Inr a \<longrightarrow>
               index_at index_info stride E_2 e_1 (Suc e_2) = Inr b \<longrightarrow> a \<le> b))"

definition coo_block_inv ::
  "bool \<Rightarrow> int Tensor \<Rightarrow> int \<Rightarrow> nat \<Rightarrow> nat \<Rightarrow> nat \<Rightarrow> nat \<Rightarrow> coo_state \<Rightarrow> nat \<Rightarrow> coo_state \<Rightarrow> bool" where
  "coo_block_inv NDEBUG index_info stride E_2 N K e_1 st0 j t \<longleftrightarrow>
     coo_frame (block_slots index_info stride E_2 N K e_1) st0 t \<and>
     (j < E_2 \<longrightarrow> index_at index_info stride E_2 e_1 j = Inr (idx t)) \<and>
     (\<forall>e_2<j. \<exists>i. index_at index_info stride E_2 e_1 e_2 = Inr i) \<and>
     (\<forall>e_2<j. \<not> NDEBUG \<longrightarrow> Suc e_2 < E_2 \<longrightarrow>
        (\<forall>a b. index_at index_info stride E_2 e_1 e_2 = Inr a \<longrightarrow>
               index_at index_info stride E_2 e_1 (Suc e_2) = Inr b \<longrightarrow> a \<le> b))"

definition coo_wf :: "ReductionType \<Rightarrow> nat \<Rightarrow> coo_state \<Rightarrow> bool" where
  "coo_wf R L t \<longleftrightarrow>
     length (out_data t) = L \<and>
     (R = MIN' \<or> R = MAX' \<longrightarrow> (\<exists>b. arg_out_data t = Some b \<and> length b = L))"

section \<open>Properties\<close>

subsection \<open>Sequencing and loops\<close>

lemma bnd_Inr [simp]: "bnd (Inr x) f = f x"
  by (simp add: bnd_def)

lemma bnd_Inl [simp]: "bnd (Inl e) f = Inl e"
  by (simp add: bnd_def)

lemma bnd_eq_Inr: "bnd m f = Inr y \<longleftrightarrow> (\<exists>x. m = Inr x \<and> f x = Inr y)"
  by (cases m) simp_all

lemma bnd_eq_Inl: "bnd m f = Inl e \<longleftrightarrow> m = Inl e \<or> (\<exists>x. m = Inr x \<and> f x = Inl e)"
  by (cases m) simp_all

lemma foldE_append: "foldE f (xs @ ys) s = bnd (foldE f xs s) (foldE f ys)"
proof (induction xs arbitrary: s)
  case Nil
  show ?case by simp
next
  case (Cons x xs)
  show ?case
    by (cases "f x s") (simp_all add: Cons.IH)
qed

lemma foldE_snoc [simp]: "foldE f (xs @ [x]) s = bnd (foldE f xs s) (f x)"
proof -
  have "foldE f [x] t = f x t" for t
    by (cases "f x t") simp_all
  then have "foldE f [x] = f x"
    by (rule ext)
  then show ?thesis
    by (simp add: foldE_append)
qed

lemma foldE_map: "foldE f (map g xs) s = foldE (\<lambda>x. f (g x)) xs s"
proof (induction xs arbitrary: s)
  case Nil
  show ?case by simp
next
  case (Cons x xs)
  show ?case
    by (cases "f (g x) s") (simp_all add: Cons.IH)
qed

lemma foldE_upt_inv:
  assumes "foldE f [0..<n] s = Inr s'"
    and "I 0 s"
    and "\<And>i t t'. i < n \<Longrightarrow> I i t \<Longrightarrow> f i t = Inr t' \<Longrightarrow> I (Suc i) t'"
  shows "I n s'"
  using assms
proof (induction n arbitrary: s')
  case 0
  then show ?case by simp
next
  case (Suc n)
  from Suc.prems(1) obtain t where t: "foldE f [0..<n] s = Inr t" and s': "f n t = Inr s'"
    by (auto simp: bnd_eq_Inr)
  have "I n t"
    using t Suc.prems(2) Suc.prems(3) by (rule Suc.IH) simp_all
  then show ?case
    using s' Suc.prems(3) by blast
qed

lemma foldE_upt_total:
  assumes "I 0 s"
    and "\<And>i t. i < n \<Longrightarrow> I i t \<Longrightarrow> \<exists>t'. f i t = Inr t' \<and> I (Suc i) t'"
  shows "\<exists>s'. foldE f [0..<n] s = Inr s' \<and> I n s'"
  using assms
proof (induction n)
  case 0
  then show ?case by simp
next
  case (Suc n)
  have "\<exists>t. foldE f [0..<n] s = Inr t \<and> I n t"
    using Suc.prems by (intro Suc.IH) simp_all
  then obtain t where t: "foldE f [0..<n] s = Inr t" "I n t"
    by blast
  with Suc.prems(2) [of n t] show ?case
    by auto
qed

lemma upto_as_upt: "[a..b - 1] = map (\<lambda>i. a + int i) [0..<nat (b - a)]"
proof (induction "nat (b - a)" arbitrary: b)
  case 0
  then show ?case by simp
next
  case (Suc m)
  then have le: "a \<le> b - 1" and m: "m = nat (b - 1 - a)"
    by simp_all
  have "[a..b - 1] = [a..b - 1 - 1] @ [b - 1]"
    using le by (rule upto_rec2)
  also have "[a..b - 1 - 1] = map (\<lambda>i. a + int i) [0..<nat (b - 1 - a)]"
    using m by (rule Suc.hyps(1))
  finally show ?case
    using Suc.hyps(2) m le by (simp add: nat_diff_distrib flip: Suc.hyps(2))
qed

subsection \<open>The stores of the reducer\<close>

lemma sint_count_cast: "sint (scast (c :: 32 word) :: 64 word) = sint c"
  by (rule sint_up_scast) (simp add: is_up)

lemma divisor_nonzero: "(if 0 <s (c :: 32 word) then (scast c :: 64 word) else 1) \<noteq> 0"
  by (metis signed.dual_order.irrefl signed_eq_0_iff sint_count_cast zero_neq_one)

lemma sint_divisor:
  "sint (if 0 <s (c :: 32 word) then (scast c :: 64 word) else 1) = max (sint c) 1"
  by (auto simp: sint_count_cast word_sless_alt max_def)

lemma scalar_div_divisor:
  "scalar_div v (if 0 <s (c :: 32 word) then scast c else 1)
     = Inr (word_of_int (sint v sdiv max (sint c) 1))"
  unfolding scalar_div_def using divisor_nonzero [of c] sint_divisor [of c] by simp

lemma store_eq_Inr:
  "store buf i v = Inr b \<longleftrightarrow> 0 \<le> i \<and> i < int (length buf) \<and> b = buf[nat i := v]"
  by (auto simp: store_def)

lemma load_eq_Inr:
  "load buf i = Inr v \<longleftrightarrow> 0 \<le> i \<and> i < int (length buf) \<and> v = buf ! nat i"
  by (auto simp: load_def)

lemma store_opt_eq_Inr:
  "store_opt ao i v = Inr r \<longleftrightarrow>
     (\<exists>b. ao = Some b \<and> 0 \<le> i \<and> i < int (length b) \<and> r = Some (b[nat i := v]))"
  by (cases ao) (auto simp: store_opt_def bnd_eq_Inr store_eq_Inr)

lemma Reducer_write_eq_Inr:
  "Reducer_write R (out, p) v (ao, q) a c = Inr r \<longleftrightarrow>
     0 \<le> p \<and> p < int (length out) \<and>
     (if writes_arg R c
      then \<exists>b. ao = Some b \<and> 0 \<le> q \<and> q < int (length b) \<and>
             r = (out[nat p := written_value R v c], Some (b[nat q := a]))
      else r = (out[nat p := written_value R v c], ao))"
  by (cases R)
    (auto simp: Reducer_write_def writes_arg_def written_value_def bnd_eq_Inr store_eq_Inr
      store_opt_eq_Inr scalar_div_divisor)

lemma csr_write_lane_eq_Inr:
  "csr_write_lane R n K c k st = Inr st' \<longleftrightarrow>
     n * K + k < length (out_data st) \<and>
     (if writes_arg R c
      then \<exists>b. arg_out_data st = Some b \<and> n * K + k < length b \<and>
             st' = st\<lparr>out_data := (out_data st)[n * K + k := written_value R (vals st ! k) c],
                      arg_out_data := Some (b[n * K + k := args st ! k])\<rparr>
      else st' = st\<lparr>out_data := (out_data st)[n * K + k := written_value R (vals st ! k) c]\<rparr>)"
  unfolding csr_write_lane_def bnd_eq_Inr Reducer_write_eq_Inr
  by (auto simp: nat_add_distrib nat_mult_distrib simp del: of_nat_add of_nat_mult)

subsection \<open>Frame of the CSR reducer\<close>

lemma same_outside_refl [simp]: "same_outside lo hi xs xs"
  by (simp add: same_outside_def)

lemma same_outside_update:
  "same_outside lo hi xs ys \<Longrightarrow> lo \<le> p \<Longrightarrow> p < hi \<Longrightarrow> same_outside lo hi xs (ys[p := v])"
  by (auto simp: same_outside_def)

lemma same_outside_trans:
  "same_outside lo hi xs ys \<Longrightarrow> same_outside lo hi ys zs \<Longrightarrow> same_outside lo hi xs zs"
  by (auto simp: same_outside_def)

lemma foldE_preserve:
  assumes "foldE f xs s = Inr s'"
    and "P s"
    and "\<And>x t t'. x \<in> set xs \<Longrightarrow> P t \<Longrightarrow> f x t = Inr t' \<Longrightarrow> P t'"
  shows "P s'"
  using assms
proof (induction xs arbitrary: s)
  case Nil
  then show ?case by simp
next
  case (Cons x xs)
  from Cons.prems(1) obtain t where t: "f x s = Inr t" and s': "foldE f xs t = Inr s'"
    by (auto simp: bnd_eq_Inr)
  have "P t"
    using Cons.prems(2) t Cons.prems(3) [of x s t] by simp
  with s' show ?case
    using Cons.prems(3) by (intro Cons.IH [of t]) auto
qed

lemma init_vals_fold:
  "k \<le> length (vals st) \<Longrightarrow>
   fold (\<lambda>k st. st\<lparr>vals := (vals st)[k := v]\<rparr>) [0..<k] st
     = st\<lparr>vals := replicate k v @ drop k (vals st)\<rparr>"
proof (induction k)
  case 0
  then show ?case by simp
next
  case (Suc k)
  then have "k < length (vals st)"
    by simp
  then have "(replicate k v @ drop k (vals st))[k := v] = replicate (Suc k) v @ drop (Suc k) (vals st)"
    by (simp add: list_update_append replicate_append_same upd_conv_take_nth_drop
        Cons_nth_drop_Suc drop_Suc flip: drop_Suc)
  with Suc show ?case
    by simp
qed

lemma init_vals:
  "length (vals st) = K \<Longrightarrow>
   fold (\<lambda>k st. st\<lparr>vals := (vals st)[k := v]\<rparr>) [0..<K] st = st\<lparr>vals := replicate K v\<rparr>"
  by (simp add: init_vals_fold)

lemma csr_update_lane_alt:
  "csr_update_lane R src off K e k st =
     bnd (load src (off + e * int K + int k)) (\<lambda>x.
       Inr (st\<lparr>vals := (vals st)[k := fst (Reducer_update R (vals st ! k) x (args st ! k) e)],
               args := (args st)[k := snd (Reducer_update R (vals st ! k) x (args st ! k) e)]\<rparr>))"
  by (simp add: csr_update_lane_def split_beta)

lemma csr_update_lane_frame:
  assumes "csr_update_lane R src off K e k st = Inr st'"
  shows "out_data st' = out_data st \<and> arg_out_data st' = arg_out_data st \<and>
         length (vals st') = length (vals st) \<and> length (args st') = length (args st)"
  using assms by (auto simp: csr_update_lane_alt bnd_eq_Inr)

lemma csr_update_lanes_frame:
  assumes "foldE (csr_update_lane R src off K e) ks st = Inr st'"
  shows "out_data st' = out_data st \<and> arg_out_data st' = arg_out_data st \<and>
         length (vals st') = length (vals st) \<and> length (args st') = length (args st)"
  using assms
proof (induction ks arbitrary: st)
  case Nil
  then show ?case by simp
next
  case (Cons k ks)
  from Cons.prems obtain t where t: "csr_update_lane R src off K e k st = Inr t"
    and s': "foldE (csr_update_lane R src off K e) ks t = Inr st'"
    by (auto simp: bnd_eq_Inr)
  show ?case
    using Cons.IH [OF s'] csr_update_lane_frame [OF t] by simp
qed

lemma csr_update_loop_frame:
  assumes "foldE (\<lambda>e. foldE (csr_update_lane R src off K e) ks) es st = Inr st'"
  shows "out_data st' = out_data st \<and> arg_out_data st' = arg_out_data st \<and>
         length (vals st') = length (vals st) \<and> length (args st') = length (args st)"
  using assms
proof (induction es arbitrary: st)
  case Nil
  then show ?case by simp
next
  case (Cons e es)
  from Cons.prems obtain t where t: "foldE (csr_update_lane R src off K e) ks st = Inr t"
    and s': "foldE (\<lambda>e. foldE (csr_update_lane R src off K e) ks) es t = Inr st'"
    by (auto simp: bnd_eq_Inr)
  show ?case
    using Cons.IH [OF s'] csr_update_lanes_frame [OF t] by simp
qed

lemma same_outside_step:
  assumes "same_outside base (base + k) xs ys" "base + k < length ys"
  shows "same_outside base (base + Suc k) xs (ys[base + k := v])"
  using assms by (auto simp: same_outside_def)

lemma nth_step:
  assumes "\<forall>j<k. ys ! (base + j) = f j" "base + k < length ys"
  shows "\<forall>j<Suc k. (ys[base + k := f k]) ! (base + j) = f j"
  using assms by (auto simp: less_Suc_eq)

lemma write_loop_inv_step:
  assumes "write_loop_inv R (n * K) c st k t" and "csr_write_lane R n K c k t = Inr t'"
  shows "write_loop_inv R (n * K) c st (Suc k) t'"
proof (cases "writes_arg R c")
  case True
  with assms(2) obtain b where b: "n * K + k < length (out_data t)" "arg_out_data t = Some b"
    "n * K + k < length b"
    and t': "t' = t\<lparr>out_data := (out_data t)[n * K + k := written_value R (vals t ! k) c],
                      arg_out_data := Some (b[n * K + k := args t ! k])\<rparr>"
    by (auto simp: csr_write_lane_eq_Inr)
  from assms(1) True b obtain b0 where b0: "arg_out_data st = Some b0"
    "same_outside (n * K) (n * K + k) b0 b" "\<forall>j<k. b ! (n * K + j) = args st ! j"
    by (auto simp: write_loop_inv_def option_rel_Some2)
  have va: "vals t = vals st" "args t = args st"
    and so: "same_outside (n * K) (n * K + k) (out_data st) (out_data t)"
    and ot: "\<forall>j<k. out_data t ! (n * K + j) = written_value R (vals st ! j) c"
    and ln: "\<forall>j<k. n * K + j < length (out_data st)"
    using assms(1) by (simp_all add: write_loop_inv_def)
  have ln': "\<forall>j<Suc k. n * K + j < length (out_data st)"
    using ln b(1) so by (auto simp: less_Suc_eq same_outside_def)
  show ?thesis
    unfolding write_loop_inv_def t'
    using True va ln' b0(1) same_outside_step [OF so b(1)] same_outside_step [OF b0(2) b(3)]
      nth_step [OF ot b(1)] nth_step [OF b0(3) b(3)]
    by simp
next
  case False
  with assms(2) have b: "n * K + k < length (out_data t)"
    and t': "t' = t\<lparr>out_data := (out_data t)[n * K + k := written_value R (vals t ! k) c]\<rparr>"
    by (auto simp: csr_write_lane_eq_Inr)
  have va: "vals t = vals st" "args t = args st" "arg_out_data t = arg_out_data st"
    and so: "same_outside (n * K) (n * K + k) (out_data st) (out_data t)"
    and ot: "\<forall>j<k. out_data t ! (n * K + j) = written_value R (vals st ! j) c"
    and ln: "\<forall>j<k. n * K + j < length (out_data st)"
    using assms(1) False by (simp_all add: write_loop_inv_def)
  have ln': "\<forall>j<Suc k. n * K + j < length (out_data st)"
    using ln b so by (auto simp: less_Suc_eq same_outside_def)
  show ?thesis
    unfolding write_loop_inv_def t'
    using False va ln' same_outside_step [OF so b] nth_step [OF ot b]
    by simp
qed

lemma csr_write_loop:
  assumes "foldE (csr_write_lane R n K c) [0..<K] st = Inr st'"
  shows "write_loop_inv R (n * K) c st K st'"
  using assms
proof (rule foldE_upt_inv [where I = "write_loop_inv R (n * K) c st"])
  show "write_loop_inv R (n * K) c st 0 st"
    by (cases "arg_out_data st") (auto simp: write_loop_inv_def)
next
  fix i t t'
  assume "write_loop_inv R (n * K) c st i t" "csr_write_lane R n K c i t = Inr t'"
  then show "write_loop_inv R (n * K) c st (Suc i) t'"
    by (rule write_loop_inv_step)
qed

lemma csr_group_effect:
  assumes "csr_group R info stride last_size src E K n st = Inr st'"
    and "length (vals st) = K"
  shows "\<exists>rs re st1.
           load (data info) (IndexPtrToOffset_get n info) = Inr rs \<and>
           load (data info) (IndexPtrToOffset_get n info + stride) = Inr re \<and>
           foldE (\<lambda>e. foldE (csr_update_lane R src
                    ((int n sdiv (int last_size - 1)) * int E * int K) K e) [0..<K])
             [rs..re - 1] (st\<lparr>vals := replicate K (Reducer_init R)\<rparr>) = Inr st1 \<and>
           write_loop_inv R (n * K) (word_of_int (re - rs)) st1 K st'"
  using assms
  by (auto simp: csr_group_def Let_def bnd_eq_Inr init_vals csr_write_loop split: if_splits)

lemma csr_group_frame:
  assumes "csr_group R info stride last_size src E K n st = Inr st'"
    and "length (vals st) = K"
  shows "length (vals st') = K \<and> length (args st') = length (args st) \<and>
         same_outside (n * K) (n * K + K) (out_data st) (out_data st') \<and>
         rel_option (same_outside (n * K) (n * K + K)) (arg_out_data st) (arg_out_data st')"
proof -
  from csr_group_effect [OF assms] obtain rs re st1 where
    st1: "foldE (\<lambda>e. foldE (csr_update_lane R src
                    ((int n sdiv (int last_size - 1)) * int E * int K) K e) [0..<K])
             [rs..re - 1] (st\<lparr>vals := replicate K (Reducer_init R)\<rparr>) = Inr st1"
    and w: "write_loop_inv R (n * K) (word_of_int (re - rs)) st1 K st'"
    by blast
  from csr_update_loop_frame [OF st1] have fr: "out_data st1 = out_data st"
    "arg_out_data st1 = arg_out_data st" "length (vals st1) = K" "length (args st1) = length (args st)"
    by simp_all
  have "rel_option (same_outside (n * K) (n * K + K)) (arg_out_data st1) (arg_out_data st')"
  proof (cases "writes_arg R (word_of_int (re - rs))")
    case True
    with w have "rel_option (\<lambda>b b'. same_outside (n * K) (n * K + K) b b' \<and>
        (\<forall>j<K. b' ! (n * K + j) = args st1 ! j)) (arg_out_data st1) (arg_out_data st')"
      by (simp add: write_loop_inv_def)
    then show ?thesis
      by (rule option.rel_mono_strong) simp
  next
    case False
    with w have "arg_out_data st' = arg_out_data st1"
      by (simp add: write_loop_inv_def)
    then show ?thesis
      by (simp add: option.rel_refl)
  qed
  with w fr show ?thesis
    by (simp add: write_loop_inv_def)
qed

lemma written_value_empty [simp]: "written_value R (Reducer_init R) 0 = 0"
  by (simp add: written_value_def Reducer_init_def)

lemma writes_arg_empty [simp]: "\<not> writes_arg R 0"
  by (simp add: writes_arg_def)

lemma csr_group_empty:
  assumes "csr_group R info stride last_size src E K n st = Inr st'"
    and "length (vals st) = K"
    and "load (data info) (IndexPtrToOffset_get n info) = Inr r"
    and "load (data info) (IndexPtrToOffset_get n info + stride) = Inr r"
  shows "arg_out_data st' = arg_out_data st \<and>
         (\<forall>k<K. n * K + k < length (out_data st') \<and> out_data st' ! (n * K + k) = 0)"
proof -
  from csr_group_effect [OF assms(1,2)] assms(3,4)
  have w: "write_loop_inv R (n * K) 0 (st\<lparr>vals := replicate K (Reducer_init R)\<rparr>) K st'"
    by auto
  then show ?thesis
    by (auto simp: write_loop_inv_def same_outside_def)
qed

lemma block_disjoint:
  fixes i n k K :: nat
  assumes "i \<noteq> n" "k < K"
  shows "n * K + k < i * K \<or> i * K + K \<le> n * K + k"
proof (cases "n < i")
  case True
  then have "Suc n * K \<le> i * K"
    by (intro mult_le_mono1) simp
  with assms(2) show ?thesis by simp
next
  case False
  with assms(1) have "Suc i * K \<le> n * K"
    by (intro mult_le_mono1) simp
  then show ?thesis by simp
qed

lemma keeps_at_refl [simp]: "keeps_at p ao ao"
  by (cases ao) (simp_all add: keeps_at_def)

lemma keeps_at_same_outside:
  assumes "keeps_at p ao ao'" "rel_option (same_outside lo hi) ao' ao''" "p < lo \<or> hi \<le> p"
  shows "keeps_at p ao ao''"
  using assms
  by (cases ao; cases ao'; cases ao'') (auto simp: keeps_at_def same_outside_def)

lemma csr_empty_inv_step:
  assumes inv: "csr_empty_inv K (n * K + k) out ao n i t"
    and step: "csr_group R info stride last_size src E K i t = Inr t'"
    and k: "k < K"
    and empty: "load (data info) (IndexPtrToOffset_get n info) = Inr r"
      "load (data info) (IndexPtrToOffset_get n info + stride) = Inr r"
  shows "csr_empty_inv K (n * K + k) out ao n (Suc i) t'"
proof -
  from inv have len: "length (vals t) = K" "length (out_data t) = length out"
    and ka: "keeps_at (n * K + k) ao (arg_out_data t)"
    by (simp_all add: csr_empty_inv_def)
  note fr = csr_group_frame [OF step len(1)]
  show ?thesis
  proof (cases "i = n")
    case True
    from csr_group_empty [OF step [unfolded True] len(1) empty] k len(2) ka fr True
    show ?thesis
      by (simp add: csr_empty_inv_def same_outside_def)
  next
    case False
    then have out: "n * K + k < i * K \<or> i * K + K \<le> n * K + k"
      using k by (rule block_disjoint)
    from fr have so: "same_outside (i * K) (i * K + K) (out_data t) (out_data t')"
      and ro: "rel_option (same_outside (i * K) (i * K + K)) (arg_out_data t) (arg_out_data t')"
      by simp_all
    have "keeps_at (n * K + k) ao (arg_out_data t')"
      using ka ro out by (rule keeps_at_same_outside)
    moreover have "n * K + k < length out \<and> out_data t' ! (n * K + k) = 0" if "n < Suc i"
    proof -
      from that False have "n < i" by simp
      with inv have "n * K + k < length out \<and> out_data t ! (n * K + k) = 0"
        by (simp add: csr_empty_inv_def)
      with so out len(2) show ?thesis
        by (auto simp: same_outside_def)
    qed
    ultimately show ?thesis
      using fr len(2) by (simp add: csr_empty_inv_def same_outside_def)
  qed
qed

lemma csr_kernel_empty_group:
  assumes run: "segment_csr_kernel reduce info stride last_size src N K E out ao = Inr st'"
    and n: "n < N" and k: "k < K"
    and empty: "load (data info) (IndexPtrToOffset_get n info) = Inr r"
      "load (data info) (IndexPtrToOffset_get n info + stride) = Inr r"
  shows "n * K + k < length out \<and> length (out_data st') = length out \<and>
         out_data st' ! (n * K + k) = 0 \<and> keeps_at (n * K + k) ao (arg_out_data st')"
proof -
  from run obtain R where
    fold: "foldE (csr_group R info stride last_size src E K) [0..<N]
         \<lparr>vals = replicate K 0, args = replicate K 0, out_data = out, arg_out_data = ao\<rparr> = Inr st'"
    by (auto simp: segment_csr_kernel_def AT_DISPATCH_REDUCTION_TYPES_def bnd_eq_Inr)
  have "csr_empty_inv K (n * K + k) out ao n N st'"
    using fold
  proof (rule foldE_upt_inv [where I = "csr_empty_inv K (n * K + k) out ao n"])
    show "csr_empty_inv K (n * K + k) out ao n 0
       \<lparr>vals = replicate K 0, args = replicate K 0, out_data = out, arg_out_data = ao\<rparr>"
      by (simp add: csr_empty_inv_def)
  next
    fix i t t'
    assume "csr_empty_inv K (n * K + k) out ao n i t"
      "csr_group R info stride last_size src E K i t = Inr t'"
    then show "csr_empty_inv K (n * K + k) out ao n (Suc i) t'"
      using k empty by (rule csr_empty_inv_step)
  qed
  with n show ?thesis
    by (simp add: csr_empty_inv_def)
qed

subsection \<open>Two runs of the CSR reducer\<close>

lemma bnd_rel:
  assumes "rel_sum (=) R m1 m2"
    and "\<And>x y. R x y \<Longrightarrow> rel_sum (=) Q (f x) (g y)"
  shows "rel_sum (=) Q (bnd m1 f) (bnd m2 g)"
  using assms by (cases m1; cases m2) auto

lemma foldE_rel:
  assumes "R s t"
    and "\<And>x s t. x \<in> set xs \<Longrightarrow> R s t \<Longrightarrow> rel_sum (=) R (f x s) (f x t)"
  shows "rel_sum (=) R (foldE f xs s) (foldE f xs t)"
  using assms
proof (induction xs arbitrary: s t)
  case Nil
  then show ?case by simp
next
  case (Cons x xs)
  show ?case
    unfolding foldE.simps
  proof (rule bnd_rel)
    show "rel_sum (=) R (f x s) (f x t)"
      using Cons.prems by simp
  next
    fix s' t'
    assume "R s' t'"
    then show "rel_sum (=) R (foldE f xs s') (foldE f xs t')"
      using Cons.prems(2) by (intro Cons.IH) auto
  qed
qed

lemma foldE_upt_rel:
  assumes "R 0 s t"
    and "\<And>i s t. i < n \<Longrightarrow> R i s t \<Longrightarrow> rel_sum (=) (R (Suc i)) (f i s) (f i t)"
  shows "rel_sum (=) (R n) (foldE f [0..<n] s) (foldE f [0..<n] t)"
  using assms
proof (induction n)
  case 0
  then show ?case by simp
next
  case (Suc n)
  have "rel_sum (=) (R n) (foldE f [0..<n] s) (foldE f [0..<n] t)"
    using Suc.prems by (intro Suc.IH) simp_all
  then have "rel_sum (=) (R (Suc n)) (bnd (foldE f [0..<n] s) (f n)) (bnd (foldE f [0..<n] t) (f n))"
    by (rule bnd_rel) (use Suc.prems(2) in simp)
  then show ?case
    by simp
qed

lemma csr_update_lane_rel:
  assumes "eq_upto m s t"
  shows "rel_sum (=) (eq_upto m) (csr_update_lane R src off K e k s) (csr_update_lane R src off K e k t)"
  using assms
  by (cases "load src (off + e * int K + int k)") (auto simp: csr_update_lane_alt eq_upto_def)

lemma csr_update_loop_rel:
  assumes "eq_upto m s t"
  shows "rel_sum (=) (eq_upto m)
           (foldE (\<lambda>e. foldE (csr_update_lane R src off K e) ks) es s)
           (foldE (\<lambda>e. foldE (csr_update_lane R src off K e) ks) es t)"
  using assms
proof (rule foldE_rel [where R = "eq_upto m"])
  fix e s' t'
  assume "eq_upto m s' t'"
  then show "rel_sum (=) (eq_upto m) (foldE (csr_update_lane R src off K e) ks s')
        (foldE (csr_update_lane R src off K e) ks t')"
    by (rule foldE_rel [where R = "eq_upto m"]) (rule csr_update_lane_rel)
qed

lemma init_fold_rel:
  assumes "eq_upto m s t"
  shows "eq_upto m (fold (\<lambda>k st. st\<lparr>vals := (vals st)[k := v]\<rparr>) ks s)
           (fold (\<lambda>k st. st\<lparr>vals := (vals st)[k := v]\<rparr>) ks t)"
  using assms
proof (induction ks arbitrary: s t)
  case Nil
  then show ?case by simp
next
  case (Cons k ks)
  from Cons.prems have "eq_upto m (s\<lparr>vals := (vals s)[k := v]\<rparr>) (t\<lparr>vals := (vals t)[k := v]\<rparr>)"
    by (simp add: eq_upto_def)
  then show ?case
    using Cons.IH by simp
qed

lemma take_Suc_update:
  assumes "take p xs = take p ys" "p < length xs" "p < length ys"
  shows "take (Suc p) (xs[p := v]) = take (Suc p) (ys[p := v])"
  using assms by (simp add: take_Suc_conv_app_nth)

lemma store_rel:
  assumes "length o1 = length o2" "take p o1 = take p o2"
  shows "rel_sum (=) (\<lambda>a a'. length a = length a' \<and> take (Suc p) a = take (Suc p) a')
           (store o1 (int p) v) (store o2 (int p) v)"
proof (cases "p < length o1")
  case True
  with assms have "take (Suc p) (o1[p := v]) = take (Suc p) (o2[p := v])"
    by (intro take_Suc_update) simp_all
  with True assms(1) show ?thesis
    by (simp add: store_def)
next
  case False
  with assms(1) show ?thesis
    by (simp add: store_def)
qed

lemma Reducer_write_rel:
  assumes "length o1 = length o2" "take p o1 = take p o2"
  shows "rel_sum (=) (\<lambda>(a, b) (a', b'). b = b' \<and> length a = length a' \<and> take (Suc p) a = take (Suc p) a')
           (Reducer_write R (o1, int p) v (ao, q) a c) (Reducer_write R (o2, int p) v (ao, q) a c)"
proof -
  have st: "rel_sum (=) (\<lambda>(a, b) (a', b'). b = b' \<and> length a = length a' \<and> take (Suc p) a = take (Suc p) a')
           (bnd (store o1 (int p) w) (\<lambda>out. f out)) (bnd (store o2 (int p) w) (\<lambda>out. f' out))"
    if "\<And>x y. length x = length y \<and> take (Suc p) x = take (Suc p) y \<Longrightarrow>
         rel_sum (=) (\<lambda>(a, b) (a', b'). b = b' \<and> length a = length a' \<and> take (Suc p) a = take (Suc p) a') (f x) (f' y)"
    for w f f'
    using store_rel [OF assms] that by (rule bnd_rel)
  show ?thesis
  proof (cases R)
    case SUM'
    then show ?thesis
      unfolding Reducer_write_def fst_conv snd_conv by (simp add: st)
  next
    case MEAN
    then show ?thesis
      unfolding Reducer_write_def fst_conv snd_conv
      by (cases "scalar_div v (if 0 <s c then scast c else 1)") (simp_all add: st)
  next
    case MIN'
    then show ?thesis
      unfolding Reducer_write_def fst_conv snd_conv
      by (cases "store_opt ao q a") (simp_all add: st)
  next
    case MAX'
    then show ?thesis
      unfolding Reducer_write_def fst_conv snd_conv
      by (cases "store_opt ao q a") (simp_all add: st)
  qed
qed

lemma csr_write_lane_rel:
  assumes "eq_upto (n * K + k) s t"
  shows "rel_sum (=) (eq_upto (n * K + Suc k)) (csr_write_lane R n K c k s) (csr_write_lane R n K c k t)"
proof -
  from assms have eq: "vals s = vals t" "args s = args t" "arg_out_data s = arg_out_data t"
    and len: "length (out_data s) = length (out_data t)"
    and tk: "take (n * K + k) (out_data s) = take (n * K + k) (out_data t)"
    by (simp_all add: eq_upto_def)
  show ?thesis
    unfolding csr_write_lane_def eq
    using Reducer_write_rel [OF len tk]
    by (rule bnd_rel) (use eq in \<open>auto simp: eq_upto_def\<close>)
qed

lemma csr_write_loop_rel:
  assumes "eq_upto (n * K) s t"
  shows "rel_sum (=) (eq_upto (n * K + K))
           (foldE (csr_write_lane R n K c) [0..<K] s) (foldE (csr_write_lane R n K c) [0..<K] t)"
  using assms csr_write_lane_rel
  by (intro foldE_upt_rel [where R = "\<lambda>k. eq_upto (n * K + k)"]) simp_all

lemma eq_upto_mono: "eq_upto m s t \<Longrightarrow> m' \<le> m \<Longrightarrow> eq_upto m' s t"
  by (auto simp: eq_upto_def dest: arg_cong [where f = "take m'"] simp: min_def)

lemma csr_group_rel:
  assumes "eq_upto (n * K) s t"
  shows "rel_sum (=) (eq_upto (Suc n * K))
           (csr_group R info stride last_size src E K n s)
           (csr_group R info stride last_size src E K n t)"
proof -
  have body: "rel_sum (=) (eq_upto (n * K + K))
      (bnd (foldE (\<lambda>e. foldE (csr_update_lane R src off K e) [0..<K]) es
             (fold (\<lambda>k st. st\<lparr>vals := (vals st)[k := Reducer_init R]\<rparr>) [0..<K] s))
         (foldE (csr_write_lane R n K c) [0..<K]))
      (bnd (foldE (\<lambda>e. foldE (csr_update_lane R src off K e) [0..<K]) es
             (fold (\<lambda>k st. st\<lparr>vals := (vals st)[k := Reducer_init R]\<rparr>) [0..<K] t))
         (foldE (csr_write_lane R n K c) [0..<K]))" for off es c
    by (rule bnd_rel [where R = "eq_upto (n * K)"])
      (intro csr_update_loop_rel init_fold_rel assms, erule csr_write_loop_rel)
  have "rel_sum (=) (eq_upto (n * K + K))
           (csr_group R info stride last_size src E K n s)
           (csr_group R info stride last_size src E K n t)"
  proof (cases "int last_size - 1 = 0")
    case True
    then show ?thesis
      unfolding csr_group_def Let_def
      by (cases "load (data info) (IndexPtrToOffset_get n info)";
          cases "load (data info) (IndexPtrToOffset_get n info + stride)") simp_all
  next
    case False
    then show ?thesis
      unfolding csr_group_def Let_def
      by (cases "load (data info) (IndexPtrToOffset_get n info)";
          cases "load (data info) (IndexPtrToOffset_get n info + stride)") (simp_all add: body)
  qed
  then show ?thesis
    by (simp add: add.commute)
qed

lemma csr_kernel_rel:
  assumes "length out1 = length out2"
  shows "rel_sum (=) (eq_upto (N * K))
           (segment_csr_kernel reduce info stride last_size src N K E out1 ao)
           (segment_csr_kernel reduce info stride last_size src N K E out2 ao)"
  unfolding segment_csr_kernel_def AT_DISPATCH_REDUCTION_TYPES_def
proof (rule bnd_rel [where R = "(=)"])
  show "rel_sum (=) (=) (reduce2REDUCE_at reduce) (reduce2REDUCE_at reduce)"
    by (simp add: sum.rel_eq)
next
  fix R R' :: ReductionType
  assume R: "R = R'"
  show "rel_sum (=) (eq_upto (N * K))
        (foldE (csr_group R info stride last_size src E K) [0..<N]
          \<lparr>vals = replicate K 0, args = replicate K 0, out_data = out1, arg_out_data = ao\<rparr>)
        (foldE (csr_group R' info stride last_size src E K) [0..<N]
          \<lparr>vals = replicate K 0, args = replicate K 0, out_data = out2, arg_out_data = ao\<rparr>)"
    unfolding R using assms csr_group_rel
    by (intro foldE_upt_rel [where R = "\<lambda>n. eq_upto (n * K)"]) (simp_all add: eq_upto_def)
qed

lemma csr_kernel_shape:
  assumes "segment_csr_kernel reduce info stride last_size src N K E out ao = Inr st'"
  shows "length (out_data st') = length out \<and>
         rel_option (\<lambda>b b'. length b' = length b) ao (arg_out_data st')"
proof -
  let ?I = "\<lambda>(i::nat) t. length (vals t) = K \<and> length (out_data t) = length out \<and>
         rel_option (\<lambda>b b'. length b' = length b) ao (arg_out_data t)"
  from assms obtain R where
    fold: "foldE (csr_group R info stride last_size src E K) [0..<N]
         \<lparr>vals = replicate K 0, args = replicate K 0, out_data = out, arg_out_data = ao\<rparr> = Inr st'"
    by (auto simp: segment_csr_kernel_def AT_DISPATCH_REDUCTION_TYPES_def bnd_eq_Inr)
  have "?I N st'"
    using fold
  proof (rule foldE_upt_inv [where I = ?I])
    show "?I 0 \<lparr>vals = replicate K 0, args = replicate K 0, out_data = out, arg_out_data = ao\<rparr>"
      by (simp add: option.rel_refl)
  next
    fix i t t'
    assume inv: "?I i t" and step: "csr_group R info stride last_size src E K i t = Inr t'"
    from inv have len: "length (vals t) = K" by simp
    from csr_group_frame [OF step len] inv
    show "?I (Suc i) t'"
      by (cases ao; cases "arg_out_data t"; cases "arg_out_data t'") (auto simp: same_outside_def)
  qed
  then show ?thesis
    by simp
qed

lemma csr_kernel_out_independent:
  assumes "length out1 = N * K" "length out2 = N * K"
  shows "segment_csr_kernel reduce info stride last_size src N K E out1 ao
       = segment_csr_kernel reduce info stride last_size src N K E out2 ao"
proof -
  have rel: "rel_sum (=) (eq_upto (N * K))
           (segment_csr_kernel reduce info stride last_size src N K E out1 ao)
           (segment_csr_kernel reduce info stride last_size src N K E out2 ao)"
    using assms by (intro csr_kernel_rel) simp
  show ?thesis
  proof (cases "segment_csr_kernel reduce info stride last_size src N K E out1 ao")
    case (Inl e)
    with rel show ?thesis
      by (cases "segment_csr_kernel reduce info stride last_size src N K E out2 ao") simp_all
  next
    case (Inr s)
    with rel obtain t where
      t: "segment_csr_kernel reduce info stride last_size src N K E out2 ao = Inr t"
      and eq: "eq_upto (N * K) s t"
      by (cases "segment_csr_kernel reduce info stride last_size src N K E out2 ao") simp_all
    from csr_kernel_shape [OF Inr] csr_kernel_shape [OF t] assms
    have "length (out_data s) = N * K" "length (out_data t) = N * K"
      by simp_all
    with eq have "s = t"
      by (simp add: eq_upto_def)
    with Inr t show ?thesis
      by simp
  qed
qed

subsection \<open>Sizes of the tensors\<close>

lemma sizes_contiguous [simp]: "sizes (contiguous t) = sizes t"
  by (simp add: contiguous_def)

lemma strides_contiguous [simp]: "strides (contiguous t) = contiguous_strides (sizes t)"
  by (simp add: contiguous_def)

lemma numel_contiguous [simp]: "numel (contiguous t) = numel t"
  by (simp add: numel_def)

lemma dim_contiguous [simp]: "dim (contiguous t) = dim t"
  by (simp add: dim_def)

lemma length_data_contiguous [simp]: "length (data (contiguous t)) = numel t"
  by (simp add: contiguous_def)

lemma tsize_cong: "sizes t = sizes t' \<Longrightarrow> tsize t d = tsize t' d"
  by (simp add: tsize_def dim_def)

lemma tsize_eq_Inr:
  "tsize t d = Inr n \<longleftrightarrow>
     - int (dim t) \<le> d \<and> d < int (dim t) \<and> n = sizes t ! nat (if d < 0 then d + int (dim t) else d)"
  by (auto simp: tsize_def)

lemma check_sizes_cong:
  assumes "sizes out = sizes out'"
  shows "check_sizes src out d = check_sizes src out' d"
proof -
  have "tsize out = tsize out'"
    by (rule ext) (rule tsize_cong [OF assms])
  then show ?thesis
    using assms by (simp add: check_sizes_def dim_def cong: if_cong)
qed

lemma full_like_cong: "sizes t = sizes t' \<Longrightarrow> full_like t v = full_like t' v"
  by (simp add: full_like_def numel_def)

lemma alloc_arg_out_cong:
  assumes "sizes out = sizes out'"
  shows "alloc_arg_out src out d reduce = alloc_arg_out src out' d reduce"
proof -
  have "full_like out = (full_like out' :: int \<Rightarrow> int Tensor)"
    by (rule ext) (rule full_like_cong [OF assms])
  then show ?thesis
    by (simp add: alloc_arg_out_def cong: if_cong)
qed

lemma fold_sizes:
  assumes "m \<le> length sz"
  shows "length (fold (\<lambda>i sz. sz[i := xs ! i]) [0..<m] sz) = length sz \<and>
         (\<forall>i < length sz. fold (\<lambda>i sz. sz[i := xs ! i]) [0..<m] sz ! i = (if i < m then xs ! i else sz ! i))"
  using assms by (induction m) (auto simp: less_Suc_eq)

lemma check_sizes_Inr:
  assumes "check_sizes src out d = Inr u"
  shows "\<forall>i < dim out. int i \<noteq> d \<longrightarrow> i < dim src \<and> sizes src ! i = sizes out ! i"
proof -
  let ?body = "\<lambda>i u. if int i \<noteq> d then
           bnd (tsize src (int i)) (\<lambda>a.
           bnd (tsize out (int i)) (\<lambda>b.
           if a = b then Inr u else Inl InputMismatch))
         else Inr u"
  let ?I = "\<lambda>(k::nat) (u::unit). \<forall>i < k. int i \<noteq> d \<longrightarrow> i < dim src \<and> sizes src ! i = sizes out ! i"
  have "?I (dim out) u"
    using assms [unfolded check_sizes_def]
  proof (rule foldE_upt_inv [where I = ?I])
    show "?I 0 ()" by simp
  next
    fix i t t'
    assume "i < dim out" "?I i t" "?body i t = Inr t'"
    then show "?I (Suc i) t'"
      by (auto simp: less_Suc_eq bnd_eq_Inr tsize_eq_Inr split: if_splits)
  qed
  then show ?thesis
    by simp
qed

subsection \<open>Preparation of the tensors\<close>

lemma reduce2REDUCE_at_eq_Inr:
  "reduce2REDUCE_at reduce = Inr R \<longleftrightarrow> reduce2REDUCE reduce = Some R"
  by (simp add: reduce2REDUCE_at_def split: option.splits)

lemma reduce2REDUCE_eq_Some:
  "reduce2REDUCE reduce = Some R \<longleftrightarrow>
     (R = SUM' \<and> (reduce = ''sum'' \<or> reduce = ''add'')) \<or> (R = MEAN \<and> reduce = ''mean'') \<or>
     (R = MIN' \<and> reduce = ''min'') \<or> (R = MAX' \<and> reduce = ''max'')"
  by (auto simp: reduce2REDUCE_def)

lemma alloc_arg_out_Inr:
  assumes "alloc_arg_out src out d reduce = Inr ao"
  shows "\<exists>R. reduce2REDUCE reduce = Some R \<and>
           (if R = MIN' \<or> R = MAX'
            then \<exists>E. tsize src d = Inr E \<and> ao = Some (full_like out (int E))
            else ao = None)"
  using assms
  by (auto simp: alloc_arg_out_def bnd_eq_Inr reduce2REDUCE_at_eq_Inr split: if_splits)

lemma torch_empty_Inr:
  assumes "torch_empty szs mem = Inr t"
  shows "sizes t = map nat szs \<and> strides t = contiguous_strides (map nat szs) \<and>
         length (data t) = numel t"
  using assms by (auto simp: torch_empty_def numel_def split: if_splits)

lemma expand_Inr:
  assumes "expand t szs = Inr t'"
  shows "sizes t' = szs \<and> length szs = dim t \<and> data t' = data t"
  using assms by (auto simp: expand_def split: if_splits)

lemma csr_prepare_Inr:
  assumes "segment_csr_prepare src0 indptr0 out_opt reduce mem = Inr (src, indptr, out, ao)"
  shows "src = contiguous src0 \<and> dim indptr = dim indptr0 \<and> dim indptr0 \<le> dim src0 \<and>
         data indptr = data indptr0 \<and>
         sizes indptr = fold (\<lambda>i sz. sz[i := sizes src0 ! i]) [0..<dim indptr0 - 1] (sizes indptr0) \<and>
         length (data out) = numel out \<and>
         alloc_arg_out src out (int (dim indptr) - 1) reduce = Inr ao"
proof -
  from assms have le: "dim indptr0 \<le> dim src0"
    by (auto simp: segment_csr_prepare_def split: if_splits)
  from assms le obtain out_res where
    ex: "expand indptr0 (fold (\<lambda>i sz. sz[i := sizes src0 ! i]) [0..<dim indptr0 - 1] (sizes indptr0))
      = Inr indptr"
    and src: "src = contiguous src0"
    and out: "(case out_opt of
               Some out_value \<Rightarrow>
                 let out = contiguous out_value in
                 bnd (check_sizes (contiguous src0) out (int (dim indptr) - 1)) (\<lambda>_.
                 bnd (tsize out (int (dim indptr) - 1)) (\<lambda>a.
                 bnd (tsize indptr (int (dim indptr) - 1)) (\<lambda>b.
                 if int a = int b - 1 then Inr out else Inl InputMismatch)))
             | None \<Rightarrow>
                 bnd (tsize indptr (int (dim indptr) - 1)) (\<lambda>b.
                 torch_empty ((map int (sizes (contiguous src0)))[nat (int (dim indptr) - 1) := int b - 1]) mem))
       = Inr out"
    and ao: "alloc_arg_out src out (int (dim indptr) - 1) reduce = Inr ao"
    by (auto simp: segment_csr_prepare_def Let_def bnd_eq_Inr)
  have "length (data out) = numel out"
  proof (cases out_opt)
    case None
    with out show ?thesis
      by (auto simp: bnd_eq_Inr dest: torch_empty_Inr)
  next
    case (Some o_value)
    with out have "out = contiguous o_value"
      by (auto simp: Let_def bnd_eq_Inr split: if_splits)
    then show ?thesis
      by simp
  qed
  with expand_Inr [OF ex] le src ao show ?thesis
    by (simp add: dim_def)
qed

lemma with_data_Some:
  "with_data t buf = Some a \<longleftrightarrow> (\<exists>t' d. t = Some t' \<and> buf = Some d \<and> a = t'\<lparr>data := d\<rparr>)"
  by (cases t; cases buf) (auto simp: with_data_def)

subsection \<open>The CSR reducer on prepared tensors\<close>

lemma segment_csr_Inr:
  assumes "segment_csr src0 indptr0 out_opt reduce mem = Inr (out', arg_out')"
    and "segment_csr_prepare src0 indptr0 out_opt reduce mem = Inr (src, indptr, out, arg_out)"
    and "csr_dims src indptr out = Inr (N, K, E, last_size, stride)"
  shows "\<exists>st. segment_csr_kernel reduce indptr stride last_size (data src) N K E
                (data out) (map_option data arg_out) = Inr st \<and>
              out' = out\<lparr>data := out_data st\<rparr> \<and> arg_out' = with_data arg_out (arg_out_data st)"
  using assms by (auto simp: segment_csr_def bnd_eq_Inr)

lemma csr_empty_group:
  assumes run: "segment_csr src0 indptr0 out_opt reduce mem = Inr (out', arg_out')"
    and prep: "segment_csr_prepare src0 indptr0 out_opt reduce mem = Inr (src, indptr, out, arg_out)"
    and dims: "csr_dims src indptr out = Inr (N, K, E, last_size, stride)"
    and n: "n < N" and k: "k < K"
    and empty: "load (data indptr) (IndexPtrToOffset_get n indptr) = Inr r"
      "load (data indptr) (IndexPtrToOffset_get n indptr + stride) = Inr r"
  shows "n * K + k < numel out \<and> data out' ! (n * K + k) = 0 \<and>
         (\<forall>a. arg_out = Some a \<longrightarrow>
            (\<exists>a'. arg_out' = Some a' \<and> sizes a' = sizes a \<and> length (data a') = length (data a) \<and>
               (n * K + k < length (data a) \<longrightarrow> data a' ! (n * K + k) = data a ! (n * K + k))))"
proof -
  from segment_csr_Inr [OF run prep dims] obtain st where
    st: "segment_csr_kernel reduce indptr stride last_size (data src) N K E
                (data out) (map_option data arg_out) = Inr st"
    and res: "out' = out\<lparr>data := out_data st\<rparr>" "arg_out' = with_data arg_out (arg_out_data st)"
    by blast
  from csr_kernel_empty_group [OF st n k empty] csr_prepare_Inr [OF prep] res
  show ?thesis
    by (cases arg_out; cases "arg_out_data st") (auto simp: keeps_at_def with_data_def)
qed

lemma csr_dims_Inr:
  assumes "csr_dims src indptr out = Inr (N, K, E, last_size, stride)"
  shows "tsize src (int (dim indptr) - 1) = Inr E \<and> N \<noteq> 0 \<and> last_size \<noteq> 0 \<and>
         tsize indptr (- 1) = Inr last_size \<and>
         (\<exists>g. tsize out (int (dim indptr) - 1) = Inr g \<and> N = g * (numel indptr div last_size)) \<and>
         K = numel out div N \<and> load (strides indptr) (int (dim indptr) - 1) = Inr stride"
  using assms by (auto simp: csr_dims_def Let_def bnd_eq_Inr split: if_splits)

subsection \<open>Claims on empty groups\<close>

text \<open>
  C3. For \<^verbatim>\<open>mean\<close>, \<^verbatim>\<open>Reducer::write\<close> stores the accumulator divided by \<open>max count 1\<close>,
  truncating towards zero: the divisor is never zero, so the division never traps, and
  for a positive count the stored value is the accumulator divided by the count. A group
  of \<^verbatim>\<open>segment_csr\<close> whose two offsets are equal has count 0 and the accumulator 0, and
  every lane of it is written as 0.
\<close>

theorem mean_write_divides_by_positive_count:
  "Reducer_write MEAN (buf, p) acc (ao, q) a count
     = bnd (store buf p (word_of_int (sint acc sdiv max (sint count) 1))) (\<lambda>b. Inr (b, ao)) \<and>
   Reducer_write MEAN (buf, p) acc (ao, q) a count \<noteq> Inl DivisionByZero \<and>
   (0 <s count \<longrightarrow>
      Reducer_write MEAN (buf, p) acc (ao, q) a count
        = bnd (store buf p (word_of_int (sint acc sdiv sint count))) (\<lambda>b. Inr (b, ao))) \<and>
   (segment_csr src_in indptr_in out_opt ''mean'' mem = Inr (out', arg_out') \<longrightarrow>
    segment_csr_prepare src_in indptr_in out_opt ''mean'' mem = Inr (src, indptr, out, arg_out) \<longrightarrow>
    csr_dims src indptr out = Inr (N, K, E, last_size, stride) \<longrightarrow>
    n < N \<longrightarrow> k < K \<longrightarrow>
    load (data indptr) (IndexPtrToOffset_get n indptr) = Inr r \<longrightarrow>
    load (data indptr) (IndexPtrToOffset_get n indptr + stride) = Inr r \<longrightarrow>
    data out' ! (n * K + k) = 0)"
proof (intro conjI impI)
  show eq: "Reducer_write MEAN (buf, p) acc (ao, q) a count
     = bnd (store buf p (word_of_int (sint acc sdiv max (sint count) 1))) (\<lambda>b. Inr (b, ao))"
    by (simp add: Reducer_write_def scalar_div_divisor)
  show "Reducer_write MEAN (buf, p) acc (ao, q) a count \<noteq> Inl DivisionByZero"
    unfolding eq by (simp add: store_def)
next
  assume "0 <s count"
  then have "max (sint count) 1 = sint count"
    by (simp add: word_sless_alt)
  then show "Reducer_write MEAN (buf, p) acc (ao, q) a count
        = bnd (store buf p (word_of_int (sint acc sdiv sint count))) (\<lambda>b. Inr (b, ao))"
    by (simp add: Reducer_write_def scalar_div_divisor)
next
  assume "segment_csr src_in indptr_in out_opt ''mean'' mem = Inr (out', arg_out')"
    "segment_csr_prepare src_in indptr_in out_opt ''mean'' mem = Inr (src, indptr, out, arg_out)"
    "csr_dims src indptr out = Inr (N, K, E, last_size, stride)"
    "n < N" "k < K"
    "load (data indptr) (IndexPtrToOffset_get n indptr) = Inr r"
    "load (data indptr) (IndexPtrToOffset_get n indptr + stride) = Inr r"
  from csr_empty_group [OF this] show "data out' ! (n * K + k) = 0"
    by simp
qed

theorem mean_write_divides_by_positive_count_witness:
  "Reducer_write MEAN ([7, 7], 1) 9 (None, 1) 0 2 = Inr ([7, 4], None) \<and>
   Reducer_write MEAN ([7, 7], 1) 9 (None, 1) 0 0 = Inr ([7, 9], None) \<and>
   segment_csr (tensor_1d [1, 2]) (tensor_1d [0, 0, 2]) None ''mean'' (\<lambda>_. 5)
     = Inr (tensor_1d [0, 1], None)"
proof -
  let ?src = "tensor_1d [1, 2 :: scalar_t]" and ?ptr = "tensor_1d [0, 0, 2 :: int]"
  let ?mem = "\<lambda>_ :: nat. 5 :: scalar_t"
  have run: "segment_csr ?src ?ptr None ''mean'' ?mem = Inr (tensor_1d [0, 1], None)"
    by code_simp
  have prep: "segment_csr_prepare ?src ?ptr None ''mean'' ?mem
      = Inr (?src, ?ptr, tensor_1d [5, 5], None)"
    by code_simp
  have dims: "csr_dims ?src ?ptr (tensor_1d [5, 5]) = Inr (2, 1, 2, 3, 1)"
    by code_simp
  have rs: "load (data ?ptr) (IndexPtrToOffset_get 0 ?ptr) = Inr 0"
    by code_simp
  have re: "load (data ?ptr) (IndexPtrToOffset_get 0 ?ptr + 1) = Inr 0"
    by code_simp
  have pos: "(0 :: 32 word) <s 2" "(0 :: nat) < 2" "(0 :: nat) < 1"
    by (simp_all add: word_sless_alt)
  note inst = mean_write_divides_by_positive_count [where buf = "[7, 7]" and p = 1 and acc = 9
      and ao = None and q = 1 and a = 0 and count = 2
      and src_in = "?src" and indptr_in = "?ptr" and out_opt = None and mem = "?mem"
      and out' = "tensor_1d [0, 1]" and arg_out' = None and src = "?src" and indptr = "?ptr"
      and out = "tensor_1d [5, 5]" and arg_out = None and N = 2 and K = 1 and E = 2
      and last_size = 3 and stride = 1 and n = 0 and k = 0 and r = 0]
  have "data (tensor_1d [0, 1 :: scalar_t]) ! (0 * 1 + 0) = 0"
    using inst run prep dims rs re pos by blast
  moreover have "Reducer_write MEAN ([7, 7], 1) 9 (None, 1) 0 2 = Inr ([7, 4], None)"
    by code_simp
  moreover have "Reducer_write MEAN ([7, 7], 1) 9 (None, 1) 0 0 = Inr ([7, 9], None)"
    by code_simp
  ultimately show ?thesis
    using run by simp
qed

text \<open>
  C5. For \<^verbatim>\<open>min\<close> and \<^verbatim>\<open>max\<close>, \<^verbatim>\<open>Reducer::write\<close> with count 0 stores 0 in the value
  output and leaves the argument output as it is. In \<^verbatim>\<open>segment_csr\<close> every lane of a group
  whose two offsets are equal ends with the value 0 and with the argument entry
  \<^verbatim>\<open>src.size(reduce_dim)\<close>, the value the argument output was filled with.
\<close>

theorem empty_group_min_max_keeps_sentinel:
  "(R = MIN' \<or> R = MAX' \<longrightarrow>
      Reducer_write R (buf, p) v (ao, q) a 0 = bnd (store buf p 0) (\<lambda>b. Inr (b, ao))) \<and>
   (segment_csr src_in indptr_in out_opt reduce mem = Inr (out', arg_out') \<longrightarrow>
    reduce = ''min'' \<or> reduce = ''max'' \<longrightarrow>
    segment_csr_prepare src_in indptr_in out_opt reduce mem = Inr (src, indptr, out, arg_out) \<longrightarrow>
    csr_dims src indptr out = Inr (N, K, E, last_size, stride) \<longrightarrow>
    n < N \<longrightarrow> k < K \<longrightarrow>
    load (data indptr) (IndexPtrToOffset_get n indptr) = Inr r \<longrightarrow>
    load (data indptr) (IndexPtrToOffset_get n indptr + stride) = Inr r \<longrightarrow>
    data out' ! (n * K + k) = 0 \<and>
    tsize src (int (dim indptr) - 1) = Inr E \<and>
    (\<exists>a'. arg_out' = Some a' \<and> data a' ! (n * K + k) = int E))"
proof (intro conjI impI)
  assume "R = MIN' \<or> R = MAX'"
  then show "Reducer_write R (buf, p) v (ao, q) a 0 = bnd (store buf p 0) (\<lambda>b. Inr (b, ao))"
    by (auto simp: Reducer_write_def)
next
  assume run: "segment_csr src_in indptr_in out_opt reduce mem = Inr (out', arg_out')"
    and prep: "segment_csr_prepare src_in indptr_in out_opt reduce mem = Inr (src, indptr, out, arg_out)"
    and dims: "csr_dims src indptr out = Inr (N, K, E, last_size, stride)"
    and nk: "n < N" "k < K"
    and empty: "load (data indptr) (IndexPtrToOffset_get n indptr) = Inr r"
      "load (data indptr) (IndexPtrToOffset_get n indptr + stride) = Inr r"
    and minmax: "reduce = ''min'' \<or> reduce = ''max''"
  note eg = csr_empty_group [OF run prep dims nk empty]
  from eg show "data out' ! (n * K + k) = 0"
    by simp
  from csr_dims_Inr [OF dims] show E: "tsize src (int (dim indptr) - 1) = Inr E"
    by simp
  from csr_prepare_Inr [OF prep] have "alloc_arg_out src out (int (dim indptr) - 1) reduce = Inr arg_out"
    by blast
  from alloc_arg_out_Inr [OF this] minmax E have ao: "arg_out = Some (full_like out (int E))"
    by (auto simp: reduce2REDUCE_eq_Some)
  with eg show "\<exists>a'. arg_out' = Some a' \<and> data a' ! (n * K + k) = int E"
    by (auto simp: full_like_def)
qed

theorem empty_group_min_max_keeps_sentinel_witness:
  "Reducer_write MIN' ([7, 7], 1) 9 (Some [2, 2], 1) 0 0 = Inr ([7, 0], Some [2, 2]) \<and>
   segment_csr (tensor_1d [5, 7]) (tensor_1d [0, 0, 2]) None ''min'' (\<lambda>_. 3)
     = Inr (tensor_1d [0, 5], Some (tensor_1d [2, 0])) \<and>
   tsize (tensor_1d [5, 7 :: scalar_t]) 0 = Inr 2"
proof -
  let ?src = "tensor_1d [5, 7 :: scalar_t]" and ?ptr = "tensor_1d [0, 0, 2 :: int]"
  let ?mem = "\<lambda>_ :: nat. 3 :: scalar_t"
  have run: "segment_csr ?src ?ptr None ''min'' ?mem
      = Inr (tensor_1d [0, 5], Some (tensor_1d [2, 0]))"
    by code_simp
  have prep: "segment_csr_prepare ?src ?ptr None ''min'' ?mem
      = Inr (?src, ?ptr, tensor_1d [3, 3], Some (tensor_1d [2, 2]))"
    by code_simp
  have dims: "csr_dims ?src ?ptr (tensor_1d [3, 3]) = Inr (2, 1, 2, 3, 1)"
    by code_simp
  have rs: "load (data ?ptr) (IndexPtrToOffset_get 0 ?ptr) = Inr 0"
    by code_simp
  have re: "load (data ?ptr) (IndexPtrToOffset_get 0 ?ptr + 1) = Inr 0"
    by code_simp
  have pos: "(0 :: nat) < 2" "(0 :: nat) < 1" "''min'' = ''min'' \<or> ''min'' = ''max''"
    "MIN' = MIN' \<or> MIN' = MAX'"
    by simp_all
  note inst = empty_group_min_max_keeps_sentinel [where R = MIN' and buf = "[7, 7]" and p = 1
      and v = 9 and ao = "Some [2, 2]" and q = 1 and a = 0
      and src_in = "?src" and indptr_in = "?ptr" and out_opt = None and reduce = "''min''"
      and mem = "?mem" and out' = "tensor_1d [0, 5]" and arg_out' = "Some (tensor_1d [2, 0])"
      and src = "?src" and indptr = "?ptr" and out = "tensor_1d [3, 3]"
      and arg_out = "Some (tensor_1d [2, 2])" and N = 2 and K = 1 and E = 2
      and last_size = 3 and stride = 1 and n = 0 and k = 0 and r = 0]
  have "Reducer_write MIN' ([7, 7], 1) 9 (Some [2, 2], 1) 0 0
      = bnd (store [7, 7] 1 0) (\<lambda>b. Inr (b, Some [2, 2]))"
    using inst pos by blast
  moreover have "tsize ?src (int (dim ?ptr) - 1) = Inr 2"
    using inst run prep dims rs re pos by blast
  ultimately show ?thesis
    using run by (simp add: store_def dim_def tensor_1d_def)
qed

subsection \<open>The groups of the CSR reducer cover the output\<close>

lemma prod_list_take_drop: "prod_list xs = prod_list (take n xs) * prod_list (drop n xs)"
proof -
  have "prod_list xs = prod_list (take n xs @ drop n xs)"
    by simp
  then show ?thesis
    unfolding prod_list.append .
qed

lemma csr_prepare_Some:
  assumes "segment_csr_prepare src_in indptr_in (Some o_value) reduce mem = Inr (src, indptr, out, ao)"
  shows "out = contiguous o_value \<and> check_sizes src out (int (dim indptr) - 1) = Inr () \<and>
         (\<exists>a b. tsize out (int (dim indptr) - 1) = Inr a \<and>
                tsize indptr (int (dim indptr) - 1) = Inr b \<and> int a = int b - 1)"
  using assms
  by (auto simp: segment_csr_prepare_def Let_def bnd_eq_Inr split: if_splits)

lemma csr_groups_cover_out:
  assumes prep: "segment_csr_prepare src_in indptr_in (Some o_value) reduce mem
      = Inr (src, indptr, out, ao)"
    and dims: "csr_dims src indptr out = Inr (N, K, E, last_size, stride)"
  shows "N * K = numel out"
proof -
  define d where "d = dim indptr"
  define szs where "szs = sizes indptr"
  note p = csr_prepare_Inr [OF prep] and ps = csr_prepare_Some [OF prep]
    and dm = csr_dims_Inr [OF dims]
  from dm have last: "tsize indptr (- 1) = Inr last_size" "last_size \<noteq> 0" "N \<noteq> 0"
    by simp_all
  from last(1) have d1: "1 \<le> d" and last_eq: "last_size = szs ! (d - 1)"
    by (auto simp: tsize_eq_Inr d_def szs_def nat_diff_distrib)
  from dm obtain g where g: "tsize out (int d - 1) = Inr g" and N: "N = g * (numel indptr div last_size)"
    and K: "K = numel out div N"
    unfolding d_def by blast
  from g d1 have dout: "d - 1 < dim out" and g_eq: "g = sizes out ! (d - 1)"
    by (auto simp: tsize_eq_Inr nat_diff_distrib)
  from p have dims_eq: "dim indptr_in = d" and le: "d \<le> dim src_in"
    and szs_fold: "szs = fold (\<lambda>i sz. sz[i := sizes src_in ! i]) [0..<d - 1] (sizes indptr_in)"
    and src: "src = contiguous src_in"
    unfolding d_def szs_def by simp_all
  have m: "d - 1 \<le> length (sizes indptr_in)"
    using dims_eq by (simp add: dim_def)
  from fold_sizes [OF m, of "sizes src_in"] dims_eq
  have len: "length szs = d" and nth: "\<forall>i < d - 1. szs ! i = sizes src_in ! i"
    by (simp_all add: szs_fold dim_def)
  from ps have "check_sizes src out (int d - 1) = Inr ()"
    unfolding d_def by blast
  note cs = check_sizes_Inr [OF this]
  have agree: "sizes src_in ! i = sizes out ! i" if "i < dim out" "i \<noteq> d - 1" for i
  proof -
    from that(2) d1 have "int i \<noteq> int d - 1"
      by linarith
    with cs that(1) have "sizes src ! i = sizes out ! i"
      by blast
    then show ?thesis
      by (simp add: src)
  qed
  have tk: "take (d - 1) szs = take (d - 1) (sizes out)"
  proof (rule nth_equalityI)
    show "length (take (d - 1) szs) = length (take (d - 1) (sizes out))"
      using len dout by (simp add: dim_def)
  next
    fix i
    assume "i < length (take (d - 1) szs)"
    then have i: "i < d - 1"
      by simp
    with dout have "i < dim out" "i \<noteq> d - 1"
      by simp_all
    with agree [of i] nth i show "take (d - 1) szs ! i = take (d - 1) (sizes out) ! i"
      by simp
  qed
  have "drop (d - 1) szs = [szs ! (d - 1)]"
    using len d1 by (metis Cons_nth_drop_Suc Suc_diff_1 diff_less drop_all le_refl less_one
        zero_less_one order_less_le_trans)
  then have "numel indptr = prod_list (take (d - 1) szs) * last_size"
    using prod_list_take_drop [of szs "d - 1"] by (simp add: numel_def szs_def last_eq)
  with last(2) tk have "numel indptr div last_size = prod_list (take (d - 1) (sizes out))"
    by simp
  with N g_eq have "N = prod_list (take (d - 1) (sizes out)) * sizes out ! (d - 1)"
    by (simp add: mult.commute)
  also have "\<dots> = prod_list (take (Suc (d - 1)) (sizes out))"
    using dout by (simp add: take_Suc_conv_app_nth dim_def)
  finally have "N = prod_list (take d (sizes out))"
    using d1 by simp
  then have "numel out = N * prod_list (drop d (sizes out))"
    using prod_list_take_drop [of "sizes out" d] by (simp add: numel_def)
  with K last(3) show ?thesis
    by simp
qed

lemma map_sum_bnd: "map_sum id f (bnd m g) = bnd m (\<lambda>x. map_sum id f (g x))"
  by (cases m) simp_all

lemma csr_prepare_cong:
  assumes "sizes o1 = sizes o2"
  shows "map_sum id (\<lambda>(s, i, out, a). (s, i, a)) (segment_csr_prepare src_in indptr_in (Some o1) reduce mem)
       = map_sum id (\<lambda>(s, i, out, a). (s, i, a)) (segment_csr_prepare src_in indptr_in (Some o2) reduce mem)"
proof -
  have sz: "sizes (contiguous o1) = sizes (contiguous o2)"
    using assms by simp
  have cs: "check_sizes s (contiguous o1) d = check_sizes s (contiguous o2) d" for s :: "scalar_t Tensor" and d
    using sz by (rule check_sizes_cong)
  have ts: "tsize (contiguous o1) d = tsize (contiguous o2) d" for d
    using sz by (rule tsize_cong)
  have al: "alloc_arg_out s (contiguous o1) d reduce = alloc_arg_out s (contiguous o2) d reduce" for s d
    using sz by (rule alloc_arg_out_cong)
  have inner: "map_sum id (\<lambda>(s, i, out, a). (s, i, a))
      (bnd (bnd (check_sizes s (contiguous o1) d) (\<lambda>_.
            bnd (tsize (contiguous o1) d) (\<lambda>a.
            bnd (tsize ip d) (\<lambda>b.
            if int a = int b - 1 then Inr (contiguous o1) else Inl InputMismatch))))
         (\<lambda>out. bnd (alloc_arg_out s out d reduce) (\<lambda>arg_out. Inr (s, ip, out, arg_out))))
    = map_sum id (\<lambda>(s, i, out, a). (s, i, a))
      (bnd (bnd (check_sizes s (contiguous o2) d) (\<lambda>_.
            bnd (tsize (contiguous o2) d) (\<lambda>a.
            bnd (tsize ip d) (\<lambda>b.
            if int a = int b - 1 then Inr (contiguous o2) else Inl InputMismatch))))
         (\<lambda>out. bnd (alloc_arg_out s out d reduce) (\<lambda>arg_out. Inr (s, ip, out, arg_out))))"
    for s d and ip :: "int Tensor"
    unfolding cs ts
    by (cases "check_sizes s (contiguous o2) d"; cases "tsize (contiguous o2) d"; cases "tsize ip d";
        cases "alloc_arg_out s (contiguous o2) d reduce") (simp_all add: al)
  show ?thesis
    unfolding segment_csr_prepare_def Let_def option.case
    by (cases "expand indptr_in
               (fold (\<lambda>i sz. sz[i := sizes src_in ! i]) [0..<dim indptr_in - 1] (sizes indptr_in))")
      (simp_all add: inner)
qed

lemma csr_dims_cong:
  assumes "sizes out1 = sizes out2"
  shows "csr_dims src indptr out1 = csr_dims src indptr out2"
proof -
  have "tsize out1 = tsize out2"
    by (rule ext) (rule tsize_cong [OF assms])
  then show ?thesis
    using assms by (simp add: csr_dims_def numel_def Let_def cong: if_cong)
qed

lemma csr_out_independent:
  assumes "sizes o1 = sizes o2"
  shows "segment_csr src_in indptr_in (Some o1) reduce mem
       = segment_csr src_in indptr_in (Some o2) reduce mem"
proof (cases "segment_csr_prepare src_in indptr_in (Some o1) reduce mem")
  case (Inl e)
  with csr_prepare_cong [OF assms, of src_in indptr_in reduce mem]
  have "segment_csr_prepare src_in indptr_in (Some o2) reduce mem = Inl e"
    by (cases "segment_csr_prepare src_in indptr_in (Some o2) reduce mem") simp_all
  with Inl show ?thesis
    by (simp add: segment_csr_def)
next
  case (Inr p)
  then obtain src indptr out1 ao where
    p1: "segment_csr_prepare src_in indptr_in (Some o1) reduce mem = Inr (src, indptr, out1, ao)"
    by (cases p) auto
  with csr_prepare_cong [OF assms, of src_in indptr_in reduce mem] obtain out2 where
    p2: "segment_csr_prepare src_in indptr_in (Some o2) reduce mem = Inr (src, indptr, out2, ao)"
    by (cases "segment_csr_prepare src_in indptr_in (Some o2) reduce mem") auto
  from csr_prepare_Some [OF p1] csr_prepare_Some [OF p2]
  have out: "out1 = contiguous o1" "out2 = contiguous o2"
    by simp_all
  with assms have sz: "sizes out1 = sizes out2"
    by simp
  note dc = csr_dims_cong [OF sz, of src indptr]
  show ?thesis
  proof (cases "csr_dims src indptr out1")
    case (Inl e)
    with dc have "csr_dims src indptr out2 = Inl e"
      by simp
    with Inl p1 p2 show ?thesis
      by (simp add: segment_csr_def)
  next
    case (Inr q)
    then obtain N K E last_size stride where
      d1: "csr_dims src indptr out1 = Inr (N, K, E, last_size, stride)"
      by (cases q) auto
    with dc have d2: "csr_dims src indptr out2 = Inr (N, K, E, last_size, stride)"
      by simp
    from csr_groups_cover_out [OF p1 d1] csr_groups_cover_out [OF p2 d2]
      csr_prepare_Inr [OF p1] csr_prepare_Inr [OF p2]
    have len: "length (data out1) = N * K" "length (data out2) = N * K"
      by simp_all
    have "out1\<lparr>data := x\<rparr> = out2\<lparr>data := x\<rparr>" for x
      using assms by (simp add: out contiguous_def)
    with csr_kernel_out_independent [OF len] p1 p2 d1 d2 show ?thesis
      by (simp add: segment_csr_def)
  qed
qed

subsection \<open>Claim on the caller's output buffer of the CSR reducer\<close>

text \<open>
  C9. The result of \<^verbatim>\<open>segment_csr\<close> does not depend on what a caller-supplied \<open>out\<close> holds:
  two calls that differ only in the contents of \<open>out\<close> return the same value output (and
  the same argument output, or fail with the same error). The \<open>N\<close> groups of \<open>K\<close> lanes
  are all of \<open>out\<close>: the buffer has \<open>N * K\<close> elements, and group \<open>n\<close> writes the positions
  \<open>n * K + k\<close>.
\<close>

theorem csr_output_independent_of_out_contents:
  "(sizes out1 = sizes out2 \<longrightarrow>
      segment_csr src_in indptr_in (Some out1) reduce mem
        = segment_csr src_in indptr_in (Some out2) reduce mem) \<and>
   (segment_csr_prepare src_in indptr_in (Some out1) reduce mem = Inr (src, indptr, out, arg_out) \<longrightarrow>
    csr_dims src indptr out = Inr (N, K, E, last_size, stride) \<longrightarrow>
    length (data out) = N * K)"
proof (intro conjI impI)
  assume "sizes out1 = sizes out2"
  then show "segment_csr src_in indptr_in (Some out1) reduce mem
        = segment_csr src_in indptr_in (Some out2) reduce mem"
    by (rule csr_out_independent)
next
  assume p: "segment_csr_prepare src_in indptr_in (Some out1) reduce mem = Inr (src, indptr, out, arg_out)"
    and d: "csr_dims src indptr out = Inr (N, K, E, last_size, stride)"
  from csr_groups_cover_out [OF p d] csr_prepare_Inr [OF p]
  show "length (data out) = N * K"
    by simp
qed

theorem csr_output_independent_of_out_contents_witness:
  "segment_csr (tensor_1d [1, 2, 3, 4, 5]) (tensor_1d [0, 2, 5]) (Some (tensor_1d [9, 9])) ''sum'' (\<lambda>_. 0)
     = Inr (tensor_1d [3, 12], None) \<and>
   segment_csr (tensor_1d [1, 2, 3, 4, 5]) (tensor_1d [0, 2, 5]) (Some (tensor_1d [1, 2])) ''sum'' (\<lambda>_. 0)
     = Inr (tensor_1d [3, 12], None) \<and>
   length (data (tensor_1d [9, 9 :: scalar_t])) = 2 * 1"
proof -
  let ?src = "tensor_1d [1, 2, 3, 4, 5 :: scalar_t]" and ?ptr = "tensor_1d [0, 2, 5 :: int]"
  let ?o1 = "tensor_1d [9, 9 :: scalar_t]" and ?o2 = "tensor_1d [1, 2 :: scalar_t]"
  let ?mem = "\<lambda>_ :: nat. 0 :: scalar_t"
  have sz: "sizes ?o1 = sizes ?o2"
    by (simp add: tensor_1d_def)
  have run: "segment_csr ?src ?ptr (Some ?o1) ''sum'' ?mem = Inr (tensor_1d [3, 12], None)"
    by code_simp
  have prep: "segment_csr_prepare ?src ?ptr (Some ?o1) ''sum'' ?mem = Inr (?src, ?ptr, ?o1, None)"
    by code_simp
  have dims: "csr_dims ?src ?ptr ?o1 = Inr (2, 1, 5, 3, 1)"
    by code_simp
  note inst = csr_output_independent_of_out_contents [where ?out1.0 = "?o1" and ?out2.0 = "?o2"
      and src_in = "?src" and indptr_in = "?ptr" and reduce = "''sum''" and mem = "?mem"
      and src = "?src" and indptr = "?ptr" and out = "?o1" and arg_out = None
      and N = 2 and K = 1 and E = 5 and last_size = 3 and stride = 1]
  from inst sz have "segment_csr ?src ?ptr (Some ?o1) ''sum'' ?mem
      = segment_csr ?src ?ptr (Some ?o2) ''sum'' ?mem"
    by blast
  moreover from inst prep dims have "length (data ?o1) = 2 * 1"
    by blast
  ultimately show ?thesis
    using run by simp
qed

subsection \<open>Claims settled by running the reducers\<close>

text \<open>
  C1. The first call of the example, \<open>index = [0, 0, 1]\<close> and \<open>values = [1, 2, 3]\<close> into
  \<open>out = [0, 0, 0]\<close> with \<^verbatim>\<open>sum\<close>, returns \<open>[3, 3, 0]\<close>. The second call, \<open>index = [2]\<close> and
  \<open>values = [4]\<close> into that output, returns \<open>[3, 3, 7]\<close>: at the start of a block the
  accumulator is loaded from \<open>out_data[e_1 * N * K + k]\<close>, the entry of group 0 (here 3), and
  not from the entry of the first group \<^verbatim>\<open>idx\<close> of the block (here 0). The index is sorted, so
  the build, with or without \<^verbatim>\<open>NDEBUG\<close>, makes no difference.
\<close>

theorem coo_block_start_seeds_from_group_zero:
  "segment_coo NDEBUG (tensor_1d [1, 2, 3]) (tensor_1d [0, 0, 1]) (tensor_1d [0, 0, 0]) ''sum''
     = Inr (tensor_1d [3, 3, 0], None) \<and>
   segment_coo NDEBUG (tensor_1d [4]) (tensor_1d [2]) (tensor_1d [3, 3, 0]) ''sum''
     = Inr (tensor_1d [3, 3, 7], None) \<and>
   coo_block NDEBUG SUM' (tensor_1d [2]) 1 [4] 1 1 3 0
       \<lparr>vals = [0], args = [0], out_data = [3, 3, 0], arg_out_data = None, idx = 0, row_start = 0\<rparr>
     = Inr \<lparr>vals = [7], args = [0], out_data = [3, 3, 7], arg_out_data = None, idx = 2, row_start = 0\<rparr>"
proof (cases NDEBUG)
  case True
  then have build: "NDEBUG = True"
    by simp
  show ?thesis
    unfolding build by code_simp
next
  case False
  then have build: "NDEBUG = False"
    by simp
  show ?thesis
    unfolding build by code_simp
qed

text \<open>
  C4. \<^verbatim>\<open>Reducer::update\<close> replaces the accumulator and the argument only on a strict
  comparison, and \<open>values = [3, 3]\<close>, \<open>offsets = [0, 2]\<close> with \<^verbatim>\<open>min\<close> gives the argument 0.
  But a value equal to the initial accumulator is never strictly smaller: for
  \<open>values = [5, 9223372036854775807]\<close> and \<open>offsets = [0, 1, 2]\<close> the second group has its
  minimum at source index 1 and is reported with the argument 0, which the accumulator
  \<^verbatim>\<open>args\<close> still holds from the first group.
\<close>

theorem min_argument_of_group_of_largest_values:
  "Reducer_update MIN' v v a e = (v, a) \<and> Reducer_update MAX' v v a e = (v, a) \<and>
   segment_csr (tensor_1d [3, 3]) (tensor_1d [0, 2]) None ''min'' (\<lambda>_. 0)
     = Inr (tensor_1d [3], Some (tensor_1d [0])) \<and>
   segment_csr (tensor_1d [5, 9223372036854775807]) (tensor_1d [0, 1, 2]) None ''min'' (\<lambda>_. 0)
     = Inr (tensor_1d [5, 9223372036854775807], Some (tensor_1d [0, 0]))"
proof (intro conjI)
  show "Reducer_update MIN' v v a e = (v, a)" "Reducer_update MAX' v v a e = (v, a)"
    by (simp_all add: Reducer_update_def)
  show "segment_csr (tensor_1d [3, 3]) (tensor_1d [0, 2]) None ''min'' (\<lambda>_. 0)
     = Inr (tensor_1d [3], Some (tensor_1d [0]))"
    by code_simp
  show "segment_csr (tensor_1d [5, 9223372036854775807]) (tensor_1d [0, 1, 2]) None ''min'' (\<lambda>_. 0)
     = Inr (tensor_1d [5, 9223372036854775807], Some (tensor_1d [0, 0]))"
    by code_simp
qed

subsection \<open>Claim on the reduction string\<close>

lemma reduce2REDUCE_dom:
  "dom reduce2REDUCE = {''sum'', ''add'', ''mean'', ''min'', ''max''}"
  by (auto simp: reduce2REDUCE_def dom_def)

lemma alloc_arg_out_unknown:
  assumes "reduce \<notin> {''sum'', ''add'', ''mean'', ''min'', ''max''}"
  shows "alloc_arg_out src out d reduce = Inl OutOfRange"
proof -
  from assms have "reduce2REDUCE reduce = None"
    using reduce2REDUCE_dom by blast
  then show ?thesis
    by (simp add: alloc_arg_out_def reduce2REDUCE_at_def)
qed

lemma alloc_arg_out_sum: "alloc_arg_out src out d ''sum'' = Inr None"
  by (simp add: alloc_arg_out_def reduce2REDUCE_at_def reduce2REDUCE_def)

lemma bnd_alloc_unknown:
  assumes "reduce \<notin> {''sum'', ''add'', ''mean'', ''min'', ''max''}"
  shows "bnd m (\<lambda>out. bnd (alloc_arg_out src out d reduce) (f out))
       = (case m of Inl e \<Rightarrow> Inl e | Inr out \<Rightarrow> Inl OutOfRange)"
  by (cases m) (simp_all add: alloc_arg_out_unknown [OF assms])

lemma bnd_alloc_sum:
  "bnd m (\<lambda>out. bnd (alloc_arg_out src out d ''sum'') (f out)) = bnd m (\<lambda>out. f out None)"
  by (simp add: alloc_arg_out_sum)

lemma csr_prepare_unknown:
  assumes "reduce \<notin> {''sum'', ''add'', ''mean'', ''min'', ''max''}"
  shows "\<exists>e. segment_csr_prepare src indptr out_opt reduce mem = Inl e \<and>
           (\<forall>p. segment_csr_prepare src indptr out_opt ''sum'' mem = Inr p \<longrightarrow> e = OutOfRange)"
proof (cases "dim indptr \<le> dim src")
  case False
  then show ?thesis
    by (simp add: segment_csr_prepare_def)
next
  case True
  show ?thesis
  proof (cases "expand indptr
               (fold (\<lambda>i sz. sz[i := sizes src ! i]) [0..<dim indptr - 1] (sizes indptr))")
    case (Inl e)
    with True show ?thesis
      by (simp add: segment_csr_prepare_def)
  next
    case (Inr ip)
    let ?out = "case out_opt of
               Some out_value \<Rightarrow>
                 let out = contiguous out_value in
                 bnd (check_sizes (contiguous src) out (int (dim ip) - 1)) (\<lambda>_.
                 bnd (tsize out (int (dim ip) - 1)) (\<lambda>a.
                 bnd (tsize ip (int (dim ip) - 1)) (\<lambda>b.
                 if int a = int b - 1 then Inr out else Inl InputMismatch)))
             | None \<Rightarrow>
                 bnd (tsize ip (int (dim ip) - 1)) (\<lambda>b.
                 torch_empty ((map int (sizes (contiguous src)))[nat (int (dim ip) - 1) := int b - 1]) mem)"
    have unk: "segment_csr_prepare src indptr out_opt reduce mem
        = (case ?out of Inl e \<Rightarrow> Inl e | Inr out \<Rightarrow> Inl OutOfRange)"
      using True Inr by (simp add: segment_csr_prepare_def Let_def bnd_alloc_unknown [OF assms])
    have sum: "segment_csr_prepare src indptr out_opt ''sum'' mem
        = bnd ?out (\<lambda>out. Inr (contiguous src, ip, out, None))"
      using True Inr by (simp add: segment_csr_prepare_def Let_def bnd_alloc_sum)
    show ?thesis
      unfolding unk sum by (cases ?out) simp_all
  qed
qed

lemma coo_prepare_unknown:
  assumes "reduce \<notin> {''sum'', ''add'', ''mean'', ''min'', ''max''}"
  shows "\<exists>e. segment_coo_prepare src index out reduce = Inl e \<and>
           (\<forall>p. segment_coo_prepare src index out ''sum'' = Inr p \<longrightarrow> e = OutOfRange)"
proof (cases "dim index \<le> dim src")
  case False
  then show ?thesis
    by (simp add: segment_coo_prepare_def)
next
  case True
  show ?thesis
  proof (cases "expand index (fold (\<lambda>i sz. sz[i := sizes src ! i]) [0..<dim index] (sizes index))")
    case (Inl e)
    with True show ?thesis
      by (simp add: segment_coo_prepare_def)
  next
    case (Inr ix)
    let ?chk = "check_sizes (contiguous src) (contiguous out) (int (dim ix) - 1)"
    have unk: "segment_coo_prepare src index out reduce
        = (case ?chk of Inl e \<Rightarrow> Inl e | Inr u \<Rightarrow> Inl OutOfRange)"
      using True Inr
      by (cases ?chk) (simp_all add: segment_coo_prepare_def Let_def alloc_arg_out_unknown [OF assms])
    have sum: "segment_coo_prepare src index out ''sum''
        = bnd ?chk (\<lambda>_. Inr (contiguous src, ix, contiguous out, None))"
      using True Inr by (simp add: segment_coo_prepare_def Let_def alloc_arg_out_sum)
    show ?thesis
      unfolding unk sum by (cases ?chk) simp_all
  qed
qed

text \<open>
  C6. The strings \<open>reduce2REDUCE\<close> knows are \<^verbatim>\<open>sum\<close>, \<^verbatim>\<open>add\<close>, \<^verbatim>\<open>mean\<close>, \<^verbatim>\<open>min\<close> and \<^verbatim>\<open>max\<close>, with
  \<^verbatim>\<open>add\<close> standing for the same kind as \<^verbatim>\<open>sum\<close>. With any other string both
  \<^verbatim>\<open>segment_csr\<close> and \<^verbatim>\<open>segment_coo\<close> fail while the tensors are prepared, before the
  kernel is entered; when the shapes are valid (the preparation succeeds with \<^verbatim>\<open>sum\<close>)
  the failure is the lookup failure of \<^verbatim>\<open>reduce2REDUCE.at\<close>.
\<close>

theorem unknown_reduce_string_fails_in_preparation:
  "dom reduce2REDUCE = {''sum'', ''add'', ''mean'', ''min'', ''max''} \<and>
   reduce2REDUCE ''add'' = reduce2REDUCE ''sum'' \<and>
   (reduce \<notin> {''sum'', ''add'', ''mean'', ''min'', ''max''} \<longrightarrow>
      reduce2REDUCE_at reduce = Inl OutOfRange \<and>
      (\<exists>e. segment_csr_prepare src indptr out_opt reduce mem = Inl e \<and>
           segment_csr src indptr out_opt reduce mem = Inl e \<and>
           (\<forall>p. segment_csr_prepare src indptr out_opt ''sum'' mem = Inr p \<longrightarrow> e = OutOfRange)) \<and>
      (\<exists>e. segment_coo_prepare src index out reduce = Inl e \<and>
           segment_coo NDEBUG src index out reduce = Inl e \<and>
           (\<forall>p. segment_coo_prepare src index out ''sum'' = Inr p \<longrightarrow> e = OutOfRange)))"
proof (intro conjI impI)
  show "dom reduce2REDUCE = {''sum'', ''add'', ''mean'', ''min'', ''max''}"
    by (rule reduce2REDUCE_dom)
  show "reduce2REDUCE ''add'' = reduce2REDUCE ''sum''"
    by (simp add: reduce2REDUCE_def)
next
  assume unknown: "reduce \<notin> {''sum'', ''add'', ''mean'', ''min'', ''max''}"
  then have "reduce2REDUCE reduce = None"
    using reduce2REDUCE_dom by blast
  then show "reduce2REDUCE_at reduce = Inl OutOfRange"
    by (simp add: reduce2REDUCE_at_def)
  from csr_prepare_unknown [OF unknown, of src indptr out_opt mem]
  show "\<exists>e. segment_csr_prepare src indptr out_opt reduce mem = Inl e \<and>
           segment_csr src indptr out_opt reduce mem = Inl e \<and>
           (\<forall>p. segment_csr_prepare src indptr out_opt ''sum'' mem = Inr p \<longrightarrow> e = OutOfRange)"
    by (auto simp: segment_csr_def)
  from coo_prepare_unknown [OF unknown, of src index out]
  show "\<exists>e. segment_coo_prepare src index out reduce = Inl e \<and>
           segment_coo NDEBUG src index out reduce = Inl e \<and>
           (\<forall>p. segment_coo_prepare src index out ''sum'' = Inr p \<longrightarrow> e = OutOfRange)"
    by (auto simp: segment_coo_def)
qed

theorem unknown_reduce_string_fails_in_preparation_witness:
  "''prod'' \<notin> {''sum'', ''add'', ''mean'', ''min'', ''max''} \<and>
   segment_csr (tensor_1d [1, 2, 3, 4, 5]) (tensor_1d [0, 2, 5]) None ''prod'' (\<lambda>_. 0) = Inl OutOfRange \<and>
   segment_coo False (tensor_1d [1, 2, 3]) (tensor_1d [0, 0, 1]) (tensor_1d [0, 0, 0]) ''prod'' = Inl OutOfRange"
proof -
  let ?src = "tensor_1d [1, 2, 3, 4, 5 :: scalar_t]" and ?ptr = "tensor_1d [0, 2, 5 :: int]"
  let ?src' = "tensor_1d [1, 2, 3 :: scalar_t]" and ?idx = "tensor_1d [0, 0, 1 :: int]"
  let ?out = "tensor_1d [0, 0, 0 :: scalar_t]"
  let ?mem = "\<lambda>_ :: nat. 0 :: scalar_t"
  have unknown: "''prod'' \<notin> {''sum'', ''add'', ''mean'', ''min'', ''max''}"
    by simp
  have csr: "segment_csr_prepare ?src ?ptr None ''sum'' ?mem = Inr (?src, ?ptr, tensor_1d [0, 0], None)"
    by code_simp
  have coo: "segment_coo_prepare ?src' ?idx ?out ''sum'' = Inr (?src', ?idx, ?out, None)"
    by code_simp
  note inst = unknown_reduce_string_fails_in_preparation [where reduce = "''prod''"]
  from inst [where src = "?src" and indptr = "?ptr" and out_opt = None and mem = "?mem"] unknown csr
  have "segment_csr ?src ?ptr None ''prod'' ?mem = Inl OutOfRange"
    by metis
  moreover
  from inst [where src = "?src'" and index = "?idx" and out = "?out"] unknown coo
  have "segment_coo False ?src' ?idx ?out ''prod'' = Inl OutOfRange"
    by metis
  ultimately show ?thesis
    using unknown by blast
qed

subsection \<open>The CSR sum of one-dimensional tensors\<close>

lemma contiguous_tensor_1d [simp]: "contiguous (tensor_1d xs) = tensor_1d xs"
proof -
  have "map (\<lambda>i. xs ! nat (int (i mod length xs))) [0..<length xs] = map (\<lambda>i. xs ! i) [0..<length xs]"
    by (rule map_cong) simp_all
  then show ?thesis
    by (simp add: contiguous_def tensor_1d_def numel_def IndexToOffset_get_def map_nth)
qed

lemma expand_tensor_1d [simp]: "expand (tensor_1d xs) [length xs] = Inr (tensor_1d xs)"
  by (simp add: expand_def tensor_1d_def dim_def)

lemma dim_tensor_1d [simp]: "dim (tensor_1d xs) = 1"
  by (simp add: dim_def tensor_1d_def)

lemma sizes_tensor_1d [simp]: "sizes (tensor_1d xs) = [length xs]"
  by (simp add: tensor_1d_def)

lemma data_tensor_1d [simp]: "data (tensor_1d xs) = xs"
  by (simp add: tensor_1d_def)

lemma strides_tensor_1d [simp]: "strides (tensor_1d xs) = [1]"
  by (simp add: tensor_1d_def)

lemma numel_tensor_1d [simp]: "numel (tensor_1d xs) = length xs"
  by (simp add: numel_def)

lemma tsize_tensor_1d [simp]:
  "tsize (tensor_1d xs) 0 = Inr (length xs)" "tsize (tensor_1d xs) (- 1) = Inr (length xs)"
  by (simp_all add: tsize_def)

lemma IndexPtrToOffset_tensor_1d:
  "n < length ps - 1 \<Longrightarrow> IndexPtrToOffset_get n (tensor_1d ps) = int n"
  by (simp add: IndexPtrToOffset_get_def)

lemma csr_prepare_1d:
  assumes "1 \<le> length ps"
  shows "segment_csr_prepare (tensor_1d xs) (tensor_1d ps) None ''sum'' mem
       = Inr (tensor_1d xs, tensor_1d ps, tensor_1d (map mem [0..<length ps - 1]), None)"
proof -
  from assms have "ps \<noteq> []"
    by auto
  with assms show ?thesis
    by (simp add: segment_csr_prepare_def alloc_arg_out_def reduce2REDUCE_at_def reduce2REDUCE_def
        torch_empty_def tensor_1d_def [of "map mem _"] nat_diff_distrib Let_def)
qed

lemma csr_dims_1d:
  assumes "2 \<le> length ps" "length out = length ps - 1"
  shows "csr_dims (tensor_1d xs) (tensor_1d ps) (tensor_1d out)
       = Inr (length ps - 1, 1, length xs, length ps, 1)"
proof -
  from assms have "ps \<noteq> []" "length ps - 1 \<noteq> 0"
    by auto
  with assms show ?thesis
    by (simp add: csr_dims_def load_def)
qed

lemma foldE_single [simp]: "foldE f [x] = f x"
proof
  fix s
  show "foldE f [x] s = f x s"
    by (cases "f x s") simp_all
qed

lemma csr_update_lane_sum:
  assumes "0 \<le> e" "e < int (length xs)" "length (vals st) = 1"
  shows "foldE (csr_update_lane SUM' xs 0 1 e) [0..<1] st
       = Inr (st\<lparr>vals := [vals st ! 0 + xs ! nat e]\<rparr>)"
proof -
  from assms(3) obtain v where v: "vals st = [v]"
    by (cases "vals st") auto
  then show ?thesis
    using assms(1,2) by (simp add: csr_update_lane_alt load_def Reducer_update_def)
qed

lemma csr_sum_loop_count:
  assumes "0 \<le> a" "nat a + c \<le> length xs" "length (vals st) = 1"
  shows "foldE (\<lambda>i. foldE (csr_update_lane SUM' xs 0 1 (a + int i)) [0..<1]) [0..<c] st
       = Inr (st\<lparr>vals := [vals st ! 0 + (\<Sum>e = nat a..<nat a + c. xs ! e)]\<rparr>)"
  using assms(2)
proof (induction c)
  case 0
  from assms(3) obtain v where "vals st = [v]"
    by (cases "vals st") auto
  then show ?case
    by simp
next
  case (Suc c)
  then have IH: "foldE (\<lambda>i. foldE (csr_update_lane SUM' xs 0 1 (a + int i)) [0..<1]) [0..<c] st
       = Inr (st\<lparr>vals := [vals st ! 0 + (\<Sum>e = nat a..<nat a + c. xs ! e)]\<rparr>)"
    by simp
  have e: "0 \<le> a + int c" "a + int c < int (length xs)"
    using assms(1) Suc.prems by linarith+
  have n: "nat (a + int c) = nat a + c"
    using assms(1) by (simp add: nat_add_distrib)
  show ?case
    using csr_update_lane_sum [OF e, of "st\<lparr>vals := [vals st ! 0 + (\<Sum>e = nat a..<nat a + c. xs ! e)]\<rparr>"]
    using IH by (simp add: n add.assoc)
qed

lemma csr_sum_loop:
  assumes "0 \<le> a" "a \<le> b" "b \<le> int (length xs)" "length (vals st) = 1"
  shows "foldE (\<lambda>e. foldE (csr_update_lane SUM' xs 0 1 e) [0..<1]) [a..b - 1] st
       = Inr (st\<lparr>vals := [vals st ! 0 + (\<Sum>e = nat a..<nat b. xs ! e)]\<rparr>)"
proof -
  have c: "nat a + nat (b - a) \<le> length xs" "nat a + nat (b - a) = nat b"
    using assms(1-3) by linarith+
  show ?thesis
    unfolding upto_as_upt foldE_map
    using csr_sum_loop_count [OF assms(1) c(1) assms(4)] by (simp only: c(2))
qed

lemma sdiv_small: "0 \<le> a \<Longrightarrow> a < b \<Longrightarrow> (a :: int) sdiv b = 0"
  by (simp add: signed_divide_int_def)

lemma csr_group_sum_1d:
  assumes n: "n < length ps - 1"
    and range: "0 \<le> ps ! n" "ps ! n \<le> ps ! Suc n" "ps ! Suc n \<le> int (length xs)"
    and st: "length (vals st) = 1" "n < length (out_data st)"
  shows "csr_group SUM' (tensor_1d ps) 1 (length ps) xs (length xs) 1 n st
       = Inr (st\<lparr>vals := [\<Sum>e = nat (ps ! n)..<nat (ps ! Suc n). xs ! e],
                 out_data := (out_data st)[n := \<Sum>e = nat (ps ! n)..<nat (ps ! Suc n). xs ! e]\<rparr>)"
proof -
  let ?F = "\<Sum>e = nat (ps ! n)..<nat (ps ! Suc n). xs ! e"
  from n have ld: "load ps (int n) = Inr (ps ! n)" "load ps (int n + 1) = Inr (ps ! Suc n)"
    by (simp_all add: load_def nat_add_distrib)
  from n have nz: "int (length ps) - 1 \<noteq> 0" and off: "int n sdiv (int (length ps) - 1) = 0"
    by (simp_all add: sdiv_small)
  have init: "fold (\<lambda>k st. st\<lparr>vals := (vals st)[k := Reducer_init SUM']\<rparr>) [0..<1] st
      = st\<lparr>vals := [0]\<rparr>"
    using init_vals [OF st(1), of "Reducer_init SUM'"] by (simp add: Reducer_init_def)
  have loop: "foldE (\<lambda>e. foldE (csr_update_lane SUM' xs 0 1 e) [0..<1]) [ps ! n..ps ! Suc n - 1]
       (st\<lparr>vals := [0]\<rparr>) = Inr (st\<lparr>vals := [?F]\<rparr>)"
    using csr_sum_loop [OF range, of "st\<lparr>vals := [0]\<rparr>"] by simp
  have wr: "foldE (csr_write_lane SUM' n 1 c) [0..<1] (st\<lparr>vals := [?F]\<rparr>)
      = Inr (st\<lparr>vals := [?F], out_data := (out_data st)[n := ?F]\<rparr>)" for c
    using st(2) by (simp add: csr_write_lane_eq_Inr writes_arg_def written_value_def)
  show ?thesis
    unfolding csr_group_def Let_def
    by (simp only: IndexPtrToOffset_tensor_1d [OF n] data_tensor_1d ld bnd_Inr nz if_False off
        mult_zero_left init loop wr)
qed

lemma csr_kernel_sum_1d:
  assumes len: "2 \<le> length ps" "length out = length ps - 1"
    and range: "sorted ps" "0 \<le> hd ps" "last ps \<le> int (length xs)"
  shows "\<exists>st. segment_csr_kernel ''sum'' (tensor_1d ps) 1 (length ps) xs (length ps - 1) 1 (length xs)
              out None = Inr st \<and>
            out_data st = map (\<lambda>g. \<Sum>e = nat (ps ! g)..<nat (ps ! Suc g). xs ! e) [0..<length ps - 1] \<and>
            arg_out_data st = None"
proof -
  let ?F = "\<lambda>g. \<Sum>e = nat (ps ! g)..<nat (ps ! Suc g). xs ! e"
  let ?I = "\<lambda>(i :: nat) (t :: kstate). length (vals t) = 1 \<and> arg_out_data t = None \<and>
      out_data t = map ?F [0..<i] @ drop i out"
  have ps: "0 \<le> ps ! n \<and> ps ! n \<le> ps ! Suc n \<and> ps ! Suc n \<le> int (length xs)"
    if "n < length ps - 1" for n
  proof -
    from that have "ps \<noteq> []" "Suc n < length ps"
      by auto
    then have "hd ps \<le> ps ! n" "ps ! n \<le> ps ! Suc n" "ps ! Suc n \<le> last ps"
      using range(1) by (simp_all add: hd_conv_nth last_conv_nth sorted_nth_mono)
    with range(2,3) show ?thesis
      by simp
  qed
  have "\<exists>st. foldE (csr_group SUM' (tensor_1d ps) 1 (length ps) xs (length xs) 1) [0..<length ps - 1]
         \<lparr>vals = replicate 1 0, args = replicate 1 0, out_data = out, arg_out_data = None\<rparr> = Inr st \<and>
       ?I (length ps - 1) st"
  proof (rule foldE_upt_total [where I = ?I])
    show "?I 0 \<lparr>vals = replicate 1 0, args = replicate 1 0, out_data = out, arg_out_data = None\<rparr>"
      by simp
  next
    fix i and t :: kstate
    assume i: "i < length ps - 1" and inv: "?I i t"
    then have "i < length (out_data t)"
      using len(2) by simp
    with csr_group_sum_1d [of i ps xs t] i ps [OF i] inv
    have step: "csr_group SUM' (tensor_1d ps) 1 (length ps) xs (length xs) 1 i t
       = Inr (t\<lparr>vals := [?F i], out_data := (out_data t)[i := ?F i]\<rparr>)"
      by simp
    have "(map ?F [0..<i] @ drop i out)[i := ?F i] = map ?F [0..<Suc i] @ drop (Suc i) out"
      using i len(2) by (simp add: list_update_append upd_conv_take_nth_drop
          Cons_nth_drop_Suc flip: drop_Suc)
    with inv show "\<exists>t'. csr_group SUM' (tensor_1d ps) 1 (length ps) xs (length xs) 1 i t = Inr t' \<and>
        ?I (Suc i) t'"
      unfolding step by simp
  qed
  then show ?thesis
    using len(2)
    by (auto simp: segment_csr_kernel_def AT_DISPATCH_REDUCTION_TYPES_def reduce2REDUCE_at_def
        reduce2REDUCE_def)
qed

lemma csr_prepare_1d_Some:
  assumes "1 \<le> length ps" "sizes out = [length ps - 1]"
  shows "segment_csr_prepare (tensor_1d xs) (tensor_1d ps) (Some out) ''sum'' mem
       = Inr (tensor_1d xs, tensor_1d ps, tensor_1d (data (contiguous out)), None)"
proof -
  from assms(1) have ne: "ps \<noteq> []"
    by auto
  have c: "contiguous out = tensor_1d (data (contiguous out))"
    using assms(2) by (simp add: contiguous_def tensor_1d_def numel_def)
  have chk: "check_sizes (tensor_1d xs) (contiguous out) 0 = Inr ()"
    using assms(2) by (simp add: check_sizes_def dim_def)
  have ts: "tsize (contiguous out) 0 = Inr (length ps - 1)"
    using assms(2) by (simp add: tsize_def dim_def)
  have eq: "int (length ps - Suc 0) = int (length ps) - 1"
    using assms(1) by simp
  show ?thesis
    using ne c [symmetric]
    by (simp add: segment_csr_prepare_def alloc_arg_out_def reduce2REDUCE_at_def reduce2REDUCE_def
        Let_def chk ts eq)
qed

text \<open>
  C2. For one-dimensional \<open>src\<close> and \<open>indptr\<close>, with at least two offsets that are
  non-decreasing and lie between 0 and the length of \<open>src\<close>, \<^verbatim>\<open>segment_csr\<close> with \<^verbatim>\<open>sum\<close>
  returns one value for each group \<open>g\<close>: the sum of \<open>src\<close> over the positions from
  \<open>indptr[g]\<close> up to, and not including, \<open>indptr[g + 1]\<close> (in the arithmetic of
  \<^verbatim>\<open>scalar_t\<close>), whether the caller leaves \<open>out\<close> away or passes one with a size for each
  group. No argument output is returned. \<open>values = [1, 2, 3, 4, 5]\<close> and
  \<open>offsets = [0, 2, 5]\<close> give \<open>[3, 12]\<close>.
\<close>

theorem csr_sum_of_half_open_ranges:
  "(2 \<le> length ps \<longrightarrow> sorted ps \<longrightarrow> 0 \<le> hd ps \<longrightarrow> last ps \<le> int (length xs) \<longrightarrow>
    (\<forall>out. out_opt = Some out \<longrightarrow> sizes out = [length ps - 1]) \<longrightarrow>
      segment_csr (tensor_1d xs) (tensor_1d ps) out_opt ''sum'' mem
        = Inr (tensor_1d (map (\<lambda>g. \<Sum>e = nat (ps ! g)..<nat (ps ! Suc g). xs ! e)
                 [0..<length ps - 1]), None)) \<and>
   segment_csr (tensor_1d [1, 2, 3, 4, 5]) (tensor_1d [0, 2, 5]) None ''sum'' mem
     = Inr (tensor_1d [3, 12], None)"
proof (intro conjI impI)
  assume len: "2 \<le> length ps" and range: "sorted ps" "0 \<le> hd ps" "last ps \<le> int (length xs)"
    and shape: "\<forall>out. out_opt = Some out \<longrightarrow> sizes out = [length ps - 1]"
  define out where "out = (case out_opt of None \<Rightarrow> map mem [0..<length ps - 1]
    | Some out_value \<Rightarrow> data (contiguous out_value))"
  have out_len: "length out = length ps - 1"
    using shape by (cases out_opt) (simp_all add: out_def numel_def)
  have prep: "segment_csr_prepare (tensor_1d xs) (tensor_1d ps) out_opt ''sum'' mem
       = Inr (tensor_1d xs, tensor_1d ps, tensor_1d out, None)"
  proof (cases out_opt)
    case None
    with len show ?thesis
      unfolding out_def by (simp add: csr_prepare_1d)
  next
    case (Some out_value)
    with len shape show ?thesis
      unfolding out_def by (simp add: csr_prepare_1d_Some)
  qed
  have dims: "csr_dims (tensor_1d xs) (tensor_1d ps) (tensor_1d out)
       = Inr (length ps - 1, 1, length xs, length ps, 1)"
    using len out_len by (intro csr_dims_1d)
  from csr_kernel_sum_1d [OF len out_len range] obtain st where
    st: "segment_csr_kernel ''sum'' (tensor_1d ps) 1 (length ps) xs (length ps - 1) 1 (length xs)
              out None = Inr st"
    "out_data st = map (\<lambda>g. \<Sum>e = nat (ps ! g)..<nat (ps ! Suc g). xs ! e) [0..<length ps - 1]"
    by auto
  have "segment_csr (tensor_1d xs) (tensor_1d ps) out_opt ''sum'' mem
      = Inr ((tensor_1d out)\<lparr>data := out_data st\<rparr>, None)"
    unfolding segment_csr_def prep bnd_Inr prod.case dims
    using st(1) by (simp add: with_data_def)
  also have "(tensor_1d out)\<lparr>data := out_data st\<rparr>
      = tensor_1d (map (\<lambda>g. \<Sum>e = nat (ps ! g)..<nat (ps ! Suc g). xs ! e) [0..<length ps - 1])"
    by (simp add: tensor_1d_def st(2) out_len)
  finally show "segment_csr (tensor_1d xs) (tensor_1d ps) out_opt ''sum'' mem
        = Inr (tensor_1d (map (\<lambda>g. \<Sum>e = nat (ps ! g)..<nat (ps ! Suc g). xs ! e)
                 [0..<length ps - 1]), None)" .
next
  show "segment_csr (tensor_1d [1, 2, 3, 4, 5]) (tensor_1d [0, 2, 5]) None ''sum'' mem
     = Inr (tensor_1d [3, 12], None)"
    by code_simp
qed

theorem csr_sum_of_half_open_ranges_witness:
  "2 \<le> length [0, 0, 2 :: int] \<and> sorted [0, 0, 2 :: int] \<and> 0 \<le> hd [0, 0, 2 :: int] \<and>
   last [0, 0, 2] \<le> int (length [1, 2 :: scalar_t]) \<and>
   sizes (tensor_1d [8, 9 :: scalar_t]) = [length [0, 0, 2 :: int] - 1] \<and>
   segment_csr (tensor_1d [1, 2]) (tensor_1d [0, 0, 2]) None ''sum'' (\<lambda>_. 7)
     = Inr (tensor_1d [0, 3], None) \<and>
   segment_csr (tensor_1d [1, 2]) (tensor_1d [0, 0, 2]) (Some (tensor_1d [8, 9])) ''sum'' (\<lambda>_. 7)
     = Inr (tensor_1d [0, 3], None)"
proof -
  have hyps: "2 \<le> length [0, 0, 2 :: int]" "sorted [0, 0, 2 :: int]" "0 \<le> hd [0, 0, 2 :: int]"
    "last [0, 0, 2] \<le> int (length [1, 2 :: scalar_t])"
    by simp_all
  have shape: "sizes (tensor_1d [8, 9 :: scalar_t]) = [length [0, 0, 2 :: int] - 1]"
    by (simp add: tensor_1d_def)
  have sums: "map (\<lambda>g. \<Sum>e = nat ([0, 0, 2 :: int] ! g)..<nat ([0, 0, 2] ! Suc g). [1, 2 :: scalar_t] ! e)
      [0..<length [0, 0, 2 :: int] - 1] = [0, 3]"
    by (simp add: upt_rec [of 0] sum.atLeast_Suc_lessThan)
  from csr_sum_of_half_open_ranges [where ps = "[0, 0, 2]" and xs = "[1, 2]" and mem = "\<lambda>_. 7"
      and out_opt = None] hyps sums
  have "segment_csr (tensor_1d [1, 2]) (tensor_1d [0, 0, 2]) None ''sum'' (\<lambda>_. 7)
     = Inr (tensor_1d [0, 3], None)"
    by simp
  moreover
  from csr_sum_of_half_open_ranges [where ps = "[0, 0, 2]" and xs = "[1, 2]" and mem = "\<lambda>_. 7"
      and out_opt = "Some (tensor_1d [8, 9])"] hyps shape sums
  have "segment_csr (tensor_1d [1, 2]) (tensor_1d [0, 0, 2]) (Some (tensor_1d [8, 9])) ''sum'' (\<lambda>_. 7)
     = Inr (tensor_1d [0, 3], None)"
    by simp
  ultimately show ?thesis
    using hyps shape by simp
qed

subsection \<open>Frame of the COO reducer\<close>

lemma coo_frame_refl [simp]: "coo_frame W s s"
  by (simp add: coo_frame_def option.rel_refl)

lemma coo_frame_trans:
  assumes "coo_frame W s t" "coo_frame W t u"
  shows "coo_frame W s u"
  using assms
  by (cases "arg_out_data s"; cases "arg_out_data t"; cases "arg_out_data u")
    (auto simp: coo_frame_def)

lemma coo_frame_mono:
  assumes "coo_frame W s t" "\<And>p. W p \<Longrightarrow> W' p"
  shows "coo_frame W' s t"
  using assms by (auto simp: coo_frame_def)

lemma coo_update_lane_alt:
  "coo_update_lane R src E_2 K e_1 e_2 k st =
     bnd (load src (int (e_1 * E_2 * K + e_2 * K + k))) (\<lambda>x.
       Inr (st\<lparr>vals := (vals st)[k := fst (Reducer_update R (vals st ! k) x (args st ! k) (int e_2))],
               args := (args st)[k := snd (Reducer_update R (vals st ! k) x (args st ! k) (int e_2))]\<rparr>))"
  by (simp add: coo_update_lane_def split_beta)

lemma coo_update_lane_frame:
  assumes "coo_update_lane R src E_2 K e_1 e_2 k st = Inr st'"
  shows "coo_frame W st st' \<and> idx st' = idx st \<and> row_start st' = row_start st \<and>
         out_data st' = out_data st \<and> arg_out_data st' = arg_out_data st"
  using assms by (auto simp: coo_update_lane_alt bnd_eq_Inr coo_frame_def option.rel_refl)

lemma coo_write_lane_eq_Inr:
  "coo_write_lane R N K e_1 e_2 k st = Inr st' \<longleftrightarrow>
     (let pos = int (e_1 * N * K) + idx st * int K + int k;
          c = word_of_int (int e_2 + 1 - row_start st);
          out = (out_data st)[nat pos := written_value R (vals st ! k) c]
      in 0 \<le> pos \<and> pos < int (length (out_data st)) \<and>
         (if writes_arg R c
          then \<exists>b. arg_out_data st = Some b \<and> pos < int (length b) \<and>
                 st' = st\<lparr>out_data := out, arg_out_data := Some (b[nat pos := args st ! k])\<rparr>
          else st' = st\<lparr>out_data := out\<rparr>))"
  unfolding coo_write_lane_def bnd_eq_Inr Reducer_write_eq_Inr Let_def
  by auto

lemma coo_write_lane_frame:
  assumes "coo_write_lane R N K e_1 e_2 k st = Inr st'" "k < K"
  shows "coo_frame (slot N K e_1 (idx st)) st st' \<and> idx st' = idx st \<and>
         row_start st' = row_start st \<and> vals st' = vals st \<and> args st' = args st"
proof -
  let ?pos = "int (e_1 * N * K) + idx st * int K + int k"
  from assms(1) have pos: "0 \<le> ?pos" "?pos < int (length (out_data st))"
    by (simp_all add: coo_write_lane_eq_Inr Let_def)
  have "slot N K e_1 (idx st) (nat ?pos)"
    unfolding slot_def using assms(2) pos(1) by (intro exI [of _ k]) simp
  then have "\<forall>p < length (out_data st). \<not> slot N K e_1 (idx st) p \<longrightarrow>
      (out_data st)[nat ?pos := v] ! p = out_data st ! p" for v
    by (metis nth_list_update_neq)
  with assms(1) show ?thesis
    by (auto simp: coo_write_lane_eq_Inr Let_def coo_frame_def option.rel_refl split: if_splits)
qed

lemma coo_seed_lane_frame:
  assumes "coo_seed_lane pos k st = Inr st'"
  shows "coo_frame W st st' \<and> idx st' = idx st \<and> row_start st' = row_start st \<and>
         out_data st' = out_data st \<and> arg_out_data st' = arg_out_data st"
  using assms by (auto simp: coo_seed_lane_def bnd_eq_Inr coo_frame_def option.rel_refl)

lemma coo_update_lanes_frame:
  assumes "foldE (coo_update_lane R src E_2 K e_1 e_2) ks st = Inr st'"
  shows "coo_frame W st st' \<and> idx st' = idx st \<and> row_start st' = row_start st \<and>
         out_data st' = out_data st \<and> arg_out_data st' = arg_out_data st"
  using assms
proof (rule foldE_preserve)
  show "coo_frame W st st \<and> idx st = idx st \<and> row_start st = row_start st \<and>
         out_data st = out_data st \<and> arg_out_data st = arg_out_data st"
    by simp
next
  fix k t t'
  assume inv: "coo_frame W st t \<and> idx t = idx st \<and> row_start t = row_start st \<and>
         out_data t = out_data st \<and> arg_out_data t = arg_out_data st"
    and step: "coo_update_lane R src E_2 K e_1 e_2 k t = Inr t'"
  from coo_update_lane_frame [OF step, of W] inv
  show "coo_frame W st t' \<and> idx t' = idx st \<and> row_start t' = row_start st \<and>
         out_data t' = out_data st \<and> arg_out_data t' = arg_out_data st"
    by (auto intro: coo_frame_trans)
qed

lemma coo_write_lanes_frame:
  assumes "foldE (coo_write_lane R N K e_1 e_2) [0..<K] st = Inr st'"
  shows "coo_frame (slot N K e_1 (idx st)) st st' \<and> idx st' = idx st \<and>
         row_start st' = row_start st"
  using assms
proof (rule foldE_preserve)
  show "coo_frame (slot N K e_1 (idx st)) st st \<and> idx st = idx st \<and> row_start st = row_start st"
    by simp
next
  fix k t t'
  assume k: "k \<in> set [0..<K]"
    and inv: "coo_frame (slot N K e_1 (idx st)) st t \<and> idx t = idx st \<and> row_start t = row_start st"
    and step: "coo_write_lane R N K e_1 e_2 k t = Inr t'"
  from k have "k < K"
    by simp
  from coo_write_lane_frame [OF step this] inv
  show "coo_frame (slot N K e_1 (idx st)) st t' \<and> idx t' = idx st \<and> row_start t' = row_start st"
    by (auto intro: coo_frame_trans)
qed

lemma coo_write_seed_lanes_frame:
  assumes "foldE (\<lambda>k st'. bnd (coo_write_lane R N K e_1 e_2 k st') (coo_seed_lane (pos k) k))
             [0..<K] st = Inr st'"
  shows "coo_frame (slot N K e_1 (idx st)) st st' \<and> idx st' = idx st \<and>
         row_start st' = row_start st"
  using assms
proof (rule foldE_preserve)
  show "coo_frame (slot N K e_1 (idx st)) st st \<and> idx st = idx st \<and> row_start st = row_start st"
    by simp
next
  fix k t t'
  assume k: "k \<in> set [0..<K]"
    and inv: "coo_frame (slot N K e_1 (idx st)) st t \<and> idx t = idx st \<and> row_start t = row_start st"
    and step: "bnd (coo_write_lane R N K e_1 e_2 k t) (coo_seed_lane (pos k) k) = Inr t'"
  from k have k': "k < K"
    by simp
  from step obtain u where u: "coo_write_lane R N K e_1 e_2 k t = Inr u"
    and t': "coo_seed_lane (pos k) k u = Inr t'"
    by (auto simp: bnd_eq_Inr)
  from coo_write_lane_frame [OF u k'] coo_seed_lane_frame [OF t', of "slot N K e_1 (idx st)"] inv
  show "coo_frame (slot N K e_1 (idx st)) st t' \<and> idx t' = idx st \<and> row_start t' = row_start st"
    by (auto intro: coo_frame_trans)
qed

lemma coo_step_effect:
  assumes "coo_step NDEBUG R info stride offset src E_2 K N e_1 e_2 st = Inr st'"
  shows "coo_frame (slot N K e_1 (idx st)) st st' \<and>
         (if int e_2 = int E_2 - 1 then idx st' = idx st
          else load (data info) (offset + (int e_2 + 1) * stride) = Inr (idx st') \<and>
               (\<not> NDEBUG \<longrightarrow> idx st \<le> idx st'))"
proof -
  let ?W = "slot N K e_1 (idx st)"
  from assms obtain s1 where
    s1: "foldE (coo_update_lane R src E_2 K e_1 e_2) [0..<K] st = Inr s1"
    and rest: "(if int e_2 = int E_2 - 1 then
       foldE (coo_write_lane R N K e_1 e_2) [0..<K] s1
     else
       bnd (load (data info) (offset + (int e_2 + 1) * stride)) (\<lambda>next_idx.
       if \<not> NDEBUG \<and> \<not> idx s1 \<le> next_idx then Inl AssertionFailed
       else
         bnd (if idx s1 \<noteq> next_idx then
                bnd (foldE (\<lambda>k st'.
                       bnd (coo_write_lane R N K e_1 e_2 k st')
                         (coo_seed_lane (int (e_1 * N * K) + next_idx * int K + int k) k))
                     [0..<K] s1)
                  (\<lambda>st'. Inr (st'\<lparr>row_start := int e_2 + 1\<rparr>))
              else Inr s1)
           (\<lambda>st'. Inr (st'\<lparr>idx := next_idx\<rparr>)))) = Inr st'"
    by (auto simp: coo_step_def bnd_eq_Inr)
  from coo_update_lanes_frame [OF s1, of ?W]
  have f1: "coo_frame ?W st s1" and i1: "idx s1 = idx st"
    by simp_all
  show ?thesis
  proof (cases "int e_2 = int E_2 - 1")
    case True
    with rest have "foldE (coo_write_lane R N K e_1 e_2) [0..<K] s1 = Inr st'"
      by simp
    from coo_write_lanes_frame [OF this] f1 i1 True show ?thesis
      by (auto intro: coo_frame_trans)
  next
    case False
    with rest obtain next_idx s2 where
      nx: "load (data info) (offset + (int e_2 + 1) * stride) = Inr next_idx"
      and le: "\<not> NDEBUG \<longrightarrow> idx s1 \<le> next_idx"
      and s2: "(if idx s1 \<noteq> next_idx then
                bnd (foldE (\<lambda>k st'.
                       bnd (coo_write_lane R N K e_1 e_2 k st')
                         (coo_seed_lane (int (e_1 * N * K) + next_idx * int K + int k) k))
                     [0..<K] s1)
                  (\<lambda>st'. Inr (st'\<lparr>row_start := int e_2 + 1\<rparr>))
              else Inr s1) = Inr s2"
      and st': "st' = s2\<lparr>idx := next_idx\<rparr>"
      by (auto simp: bnd_eq_Inr split: if_splits)
    have "coo_frame ?W s1 s2"
    proof (cases "idx s1 = next_idx")
      case True
      with s2 show ?thesis
        by simp
    next
      case False
      with s2 obtain s3 where
        s3: "foldE (\<lambda>k st'.
                       bnd (coo_write_lane R N K e_1 e_2 k st')
                         (coo_seed_lane (int (e_1 * N * K) + next_idx * int K + int k) k))
                     [0..<K] s1 = Inr s3"
        and "s2 = s3\<lparr>row_start := int e_2 + 1\<rparr>"
        by (auto simp: bnd_eq_Inr)
      with coo_write_seed_lanes_frame [OF s3] i1 show ?thesis
        by (simp add: coo_frame_def)
    qed
    with f1 have "coo_frame ?W st s2"
      by (rule coo_frame_trans)
    then have "coo_frame ?W st st'"
      by (simp add: st' coo_frame_def)
    with False nx le i1 st' show ?thesis
      by simp
  qed
qed

lemma coo_block_inv_step:
  assumes inv: "coo_block_inv NDEBUG info stride E_2 N K e_1 st0 j t"
    and j: "j < E_2"
    and step: "coo_step NDEBUG R info stride (IndexToOffset_get (e_1 * E_2) info) src E_2 K N e_1 j t = Inr t'"
  shows "coo_block_inv NDEBUG info stride E_2 N K e_1 st0 (Suc j) t'"
proof -
  let ?W = "block_slots info stride E_2 N K e_1"
  from inv j have fr: "coo_frame ?W st0 t" and ix: "index_at info stride E_2 e_1 j = Inr (idx t)"
    and reads: "\<forall>e_2<j. \<exists>i. index_at info stride E_2 e_1 e_2 = Inr i"
    and sorted: "\<forall>e_2<j. \<not> NDEBUG \<longrightarrow> Suc e_2 < E_2 \<longrightarrow>
        (\<forall>a b. index_at info stride E_2 e_1 e_2 = Inr a \<longrightarrow>
               index_at info stride E_2 e_1 (Suc e_2) = Inr b \<longrightarrow> a \<le> b)"
    by (simp_all add: coo_block_inv_def)
  note eff = coo_step_effect [OF step]
  have "slot N K e_1 (idx t) p \<Longrightarrow> ?W p" for p
    unfolding block_slots_def using j ix by blast
  with eff have "coo_frame ?W t t'"
    by (blast intro: coo_frame_mono)
  with fr have fr': "coo_frame ?W st0 t'"
    by (rule coo_frame_trans)
  have reads': "\<forall>e_2<Suc j. \<exists>i. index_at info stride E_2 e_1 e_2 = Inr i"
    using reads ix by (auto simp: less_Suc_eq)
  show ?thesis
  proof (cases "int j = int E_2 - 1")
    case True
    then have "Suc j = E_2"
      by linarith
    with fr' reads' sorted show ?thesis
      by (auto simp: coo_block_inv_def less_Suc_eq)
  next
    case False
    with eff have nx: "load (data info) (IndexToOffset_get (e_1 * E_2) info + (int j + 1) * stride)
        = Inr (idx t')" and le: "\<not> NDEBUG \<longrightarrow> idx t \<le> idx t'"
      by simp_all
    then have ix': "index_at info stride E_2 e_1 (Suc j) = Inr (idx t')"
      by (simp add: index_at_def add.commute)
    with fr' reads' sorted ix le show ?thesis
      by (auto simp: coo_block_inv_def less_Suc_eq)
  qed
qed

lemma coo_seed_lanes_frame:
  assumes "foldE (\<lambda>k. coo_seed_lane (pos k) k) ks st = Inr st'"
  shows "coo_frame W st st' \<and> idx st' = idx st"
  using assms
proof (rule foldE_preserve)
  show "coo_frame W st st \<and> idx st = idx st"
    by simp
next
  fix k t t'
  assume inv: "coo_frame W st t \<and> idx t = idx st" and step: "coo_seed_lane (pos k) k t = Inr t'"
  from coo_seed_lane_frame [OF step, of W] inv show "coo_frame W st t' \<and> idx t' = idx st"
    by (auto intro: coo_frame_trans)
qed

lemma coo_block_effect:
  assumes "coo_block NDEBUG R info stride src E_2 K N e_1 st0 = Inr st'"
  shows "coo_frame (block_slots info stride E_2 N K e_1) st0 st' \<and>
         (\<not> NDEBUG \<longrightarrow> block_sorted info stride E_2 e_1)"
proof -
  let ?W = "block_slots info stride E_2 N K e_1"
  let ?off = "IndexToOffset_get (e_1 * E_2) info"
  from assms obtain first_idx s1 where
    first: "load (data info) ?off = Inr first_idx"
    and s1: "foldE (\<lambda>k. coo_seed_lane (int (e_1 * N * K + k)) k) [0..<K]
             (st0\<lparr>idx := first_idx\<rparr>) = Inr s1"
    and steps: "foldE (coo_step NDEBUG R info stride ?off src E_2 K N e_1) [0..<E_2]
        (s1\<lparr>row_start := 0\<rparr>) = Inr st'"
    by (auto simp: coo_block_def Let_def bnd_eq_Inr)
  from coo_seed_lanes_frame [OF s1, of ?W]
  have "coo_frame ?W (st0\<lparr>idx := first_idx\<rparr>) s1" "idx s1 = first_idx"
    by simp_all
  then have init: "coo_block_inv NDEBUG info stride E_2 N K e_1 st0 0 (s1\<lparr>row_start := 0\<rparr>)"
    using first by (simp add: coo_block_inv_def coo_frame_def index_at_def)
  have "coo_block_inv NDEBUG info stride E_2 N K e_1 st0 E_2 st'"
    using steps init
    by (rule foldE_upt_inv [where I = "coo_block_inv NDEBUG info stride E_2 N K e_1 st0"])
      (rule coo_block_inv_step)
  then show ?thesis
    unfolding coo_block_inv_def block_sorted_def
    by (meson Suc_lessD)
qed

lemma coo_kernel_effect:
  assumes "segment_coo_kernel NDEBUG reduce info stride src E_1 E_2 K N out ao = Inr st'"
  shows "length (out_data st') = length out \<and>
         rel_option (\<lambda>b b'. length b' = length b) ao (arg_out_data st') \<and>
         (\<forall>p < length out. (\<forall>e_1<E_1. \<not> block_slots info stride E_2 N K e_1 p) \<longrightarrow>
            out_data st' ! p = out ! p) \<and>
         (\<not> NDEBUG \<longrightarrow> (\<forall>e_1<E_1. block_sorted info stride E_2 e_1))"
proof -
  let ?st0 = "\<lparr>vals = replicate K 0, args = replicate K 0, out_data = out, arg_out_data = ao,
      idx = 0, row_start = 0\<rparr>"
  let ?W = "\<lambda>p. \<exists>e_1<E_1. block_slots info stride E_2 N K e_1 p"
  let ?I = "\<lambda>(i :: nat) (t :: coo_state). coo_frame ?W ?st0 t \<and>
      (\<not> NDEBUG \<longrightarrow> (\<forall>e_1<i. block_sorted info stride E_2 e_1))"
  from assms obtain R where
    fold: "foldE (coo_block NDEBUG R info stride src E_2 K N) [0..<E_1] ?st0 = Inr st'"
    by (auto simp: segment_coo_kernel_def AT_DISPATCH_REDUCTION_TYPES_def bnd_eq_Inr)
  have "?I E_1 st'"
    using fold
  proof (rule foldE_upt_inv [where I = ?I])
    show "?I 0 ?st0"
      by simp
  next
    fix i and t t' :: coo_state
    assume i: "i < E_1" and inv: "?I i t" and step: "coo_block NDEBUG R info stride src E_2 K N i t = Inr t'"
    from coo_block_effect [OF step]
    have fr: "coo_frame (block_slots info stride E_2 N K i) t t'"
      and so: "\<not> NDEBUG \<longrightarrow> block_sorted info stride E_2 i"
      by simp_all
    from fr i have "coo_frame ?W t t'"
      by (blast intro: coo_frame_mono)
    with inv have "coo_frame ?W ?st0 t'"
      by (blast intro: coo_frame_trans)
    with inv so show "?I (Suc i) t'"
      by (auto simp: less_Suc_eq)
  qed
  then show ?thesis
    by (simp add: coo_frame_def)
qed

lemma foldE_no_error:
  assumes "\<And>x t. x \<in> set xs \<Longrightarrow> f x t \<noteq> Inl e"
  shows "foldE f xs s \<noteq> Inl e"
  using assms
proof (induction xs arbitrary: s)
  case Nil
  show ?case by simp
next
  case (Cons x xs)
  have "f x s \<noteq> Inl e"
    using Cons.prems by simp
  moreover have "foldE f xs t \<noteq> Inl e" for t
    using Cons.prems by (intro Cons.IH) simp
  ultimately show ?case
    by (cases "f x s") simp_all
qed

lemma foldE_upt_no_error:
  assumes "I 0 s"
    and "\<And>i t t'. i < n \<Longrightarrow> I i t \<Longrightarrow> f i t = Inr t' \<Longrightarrow> I (Suc i) t'"
    and "\<And>i t. i < n \<Longrightarrow> I i t \<Longrightarrow> f i t \<noteq> Inl e"
  shows "foldE f [0..<n] s \<noteq> Inl e"
  using assms
proof (induction n)
  case 0
  show ?case by simp
next
  case (Suc n)
  have no: "foldE f [0..<n] s \<noteq> Inl e"
    using Suc.prems by (intro Suc.IH) simp_all
  show ?case
  proof (cases "foldE f [0..<n] s")
    case (Inl e')
    with no show ?thesis
      by auto
  next
    case (Inr t)
    then have "I n t"
      using Suc.prems(1)
      by (rule foldE_upt_inv [where I = I]) (use Suc.prems(2) in simp)
    with Suc.prems(3) [of n t] Inr show ?thesis
      by simp
  qed
qed

lemma load_no_assert: "load buf i \<noteq> Inl AssertionFailed"
  by (simp add: load_def)

lemma store_no_assert: "store buf i v \<noteq> Inl AssertionFailed"
  by (simp add: store_def)

lemma Reducer_write_no_assert: "Reducer_write R address v arg_address a c \<noteq> Inl AssertionFailed"
  by (cases address; cases arg_address; cases "fst arg_address")
    (auto simp: Reducer_write_def bnd_eq_Inl store_no_assert store_opt_def scalar_div_def
      split: if_splits)

lemma coo_update_lane_no_assert: "coo_update_lane R src E_2 K e_1 e_2 k st \<noteq> Inl AssertionFailed"
  by (simp add: coo_update_lane_alt bnd_eq_Inl load_no_assert)

lemma coo_write_lane_no_assert: "coo_write_lane R N K e_1 e_2 k st \<noteq> Inl AssertionFailed"
  by (auto simp: coo_write_lane_def bnd_eq_Inl Reducer_write_no_assert)

lemma coo_seed_lane_no_assert: "coo_seed_lane pos k st \<noteq> Inl AssertionFailed"
  by (simp add: coo_seed_lane_def bnd_eq_Inl load_no_assert)

lemma coo_step_no_assert:
  assumes "int e_2 \<noteq> int E_2 - 1 \<Longrightarrow> \<not> NDEBUG \<Longrightarrow>
      \<forall>b. load (data info) (offset + (int e_2 + 1) * stride) = Inr b \<longrightarrow> idx st \<le> b"
  shows "coo_step NDEBUG R info stride offset src E_2 K N e_1 e_2 st \<noteq> Inl AssertionFailed"
proof
  assume fail: "coo_step NDEBUG R info stride offset src E_2 K N e_1 e_2 st = Inl AssertionFailed"
  have up: "foldE (coo_update_lane R src E_2 K e_1 e_2) [0..<K] st \<noteq> Inl AssertionFailed"
    by (rule foldE_no_error) (rule coo_update_lane_no_assert)
  have wr: "foldE (coo_write_lane R N K e_1 e_2) [0..<K] t \<noteq> Inl AssertionFailed" for t
    by (rule foldE_no_error) (rule coo_write_lane_no_assert)
  have ws: "foldE (\<lambda>k st'. bnd (coo_write_lane R N K e_1 e_2 k st') (coo_seed_lane (pos k) k))
      [0..<K] t \<noteq> Inl AssertionFailed" for t pos
    by (rule foldE_no_error)
      (simp add: bnd_eq_Inl coo_write_lane_no_assert coo_seed_lane_no_assert)
  from fail up obtain s1 where
    s1: "foldE (coo_update_lane R src E_2 K e_1 e_2) [0..<K] st = Inr s1"
    and rest: "(if int e_2 = int E_2 - 1 then
       foldE (coo_write_lane R N K e_1 e_2) [0..<K] s1
     else
       bnd (load (data info) (offset + (int e_2 + 1) * stride)) (\<lambda>next_idx.
       if \<not> NDEBUG \<and> \<not> idx s1 \<le> next_idx then Inl AssertionFailed
       else
         bnd (if idx s1 \<noteq> next_idx then
                bnd (foldE (\<lambda>k st'.
                       bnd (coo_write_lane R N K e_1 e_2 k st')
                         (coo_seed_lane (int (e_1 * N * K) + next_idx * int K + int k) k))
                     [0..<K] s1)
                  (\<lambda>st'. Inr (st'\<lparr>row_start := int e_2 + 1\<rparr>))
              else Inr s1)
           (\<lambda>st'. Inr (st'\<lparr>idx := next_idx\<rparr>)))) = Inl AssertionFailed"
    by (auto simp: coo_step_def bnd_eq_Inl)
  from coo_update_lanes_frame [OF s1, of "\<lambda>_. True"] have i1: "idx s1 = idx st"
    by simp
  show False
  proof (cases "int e_2 = int E_2 - 1")
    case True
    with rest wr show False
      by simp
  next
    case False
    with rest load_no_assert obtain b where
      b: "load (data info) (offset + (int e_2 + 1) * stride) = Inr b"
      and r2: "(if \<not> NDEBUG \<and> \<not> idx s1 \<le> b then Inl AssertionFailed
       else
         bnd (if idx s1 \<noteq> b then
                bnd (foldE (\<lambda>k st'.
                       bnd (coo_write_lane R N K e_1 e_2 k st')
                         (coo_seed_lane (int (e_1 * N * K) + b * int K + int k) k))
                     [0..<K] s1)
                  (\<lambda>st'. Inr (st'\<lparr>row_start := int e_2 + 1\<rparr>))
              else Inr s1)
           (\<lambda>st'. Inr (st'\<lparr>idx := b\<rparr>))) = Inl AssertionFailed"
      by (auto simp: bnd_eq_Inl)
    from assms [OF False] b i1 have "\<not> NDEBUG \<longrightarrow> idx s1 \<le> b"
      by simp
    with r2 ws [of "\<lambda>k. int (e_1 * N * K) + b * int K + int k" s1] show False
      by (auto simp: bnd_eq_Inl split: if_splits)
  qed
qed

lemma coo_block_no_assert:
  assumes "\<not> NDEBUG \<longrightarrow> (\<forall>e_2. Suc e_2 < E_2 \<longrightarrow>
        (\<forall>a b. index_at info stride E_2 e_1 e_2 = Inr a \<longrightarrow>
               index_at info stride E_2 e_1 (Suc e_2) = Inr b \<longrightarrow> a \<le> b))"
  shows "coo_block NDEBUG R info stride src E_2 K N e_1 st0 \<noteq> Inl AssertionFailed"
proof
  let ?off = "IndexToOffset_get (e_1 * E_2) info"
  assume fail: "coo_block NDEBUG R info stride src E_2 K N e_1 st0 = Inl AssertionFailed"
  have seeds: "foldE (\<lambda>k. coo_seed_lane (int (e_1 * N * K + k)) k) [0..<K] t \<noteq> Inl AssertionFailed" for t
    by (rule foldE_no_error) (rule coo_seed_lane_no_assert)
  from fail load_no_assert seeds obtain first_idx s1 where
    first: "load (data info) ?off = Inr first_idx"
    and s1: "foldE (\<lambda>k. coo_seed_lane (int (e_1 * N * K + k)) k) [0..<K]
             (st0\<lparr>idx := first_idx\<rparr>) = Inr s1"
    and steps: "foldE (coo_step NDEBUG R info stride ?off src E_2 K N e_1) [0..<E_2]
        (s1\<lparr>row_start := 0\<rparr>) = Inl AssertionFailed"
    by (auto simp: coo_block_def Let_def bnd_eq_Inl)
  from coo_seed_lanes_frame [OF s1, of "block_slots info stride E_2 N K e_1"]
  have "coo_frame (block_slots info stride E_2 N K e_1) (st0\<lparr>idx := first_idx\<rparr>) s1"
    "idx s1 = first_idx"
    by simp_all
  then have init: "coo_block_inv NDEBUG info stride E_2 N K e_1 st0 0 (s1\<lparr>row_start := 0\<rparr>)"
    using first by (simp add: coo_block_inv_def coo_frame_def index_at_def)
  have "foldE (coo_step NDEBUG R info stride ?off src E_2 K N e_1) [0..<E_2]
        (s1\<lparr>row_start := 0\<rparr>) \<noteq> Inl AssertionFailed"
    using init
  proof (rule foldE_upt_no_error [where I = "coo_block_inv NDEBUG info stride E_2 N K e_1 st0"])
    fix j t t'
    assume "j < E_2" "coo_block_inv NDEBUG info stride E_2 N K e_1 st0 j t"
      "coo_step NDEBUG R info stride ?off src E_2 K N e_1 j t = Inr t'"
    then show "coo_block_inv NDEBUG info stride E_2 N K e_1 st0 (Suc j) t'"
      by (intro coo_block_inv_step)
  next
    fix j t
    assume j: "j < E_2" and inv: "coo_block_inv NDEBUG info stride E_2 N K e_1 st0 j t"
    then have ix: "index_at info stride E_2 e_1 j = Inr (idx t)"
      by (simp add: coo_block_inv_def)
    show "coo_step NDEBUG R info stride ?off src E_2 K N e_1 j t \<noteq> Inl AssertionFailed"
    proof (rule coo_step_no_assert, intro allI impI)
      fix b
      assume "int j \<noteq> int E_2 - 1" and debug: "\<not> NDEBUG"
        and b: "load (data info) (?off + (int j + 1) * stride) = Inr b"
      with j have "Suc j < E_2"
        by linarith
      moreover from b have "index_at info stride E_2 e_1 (Suc j) = Inr b"
        by (simp add: index_at_def add.commute)
      ultimately show "idx t \<le> b"
        using assms debug ix by blast
    qed
  qed
  with steps show False
    by simp
qed

lemma coo_kernel_no_assert:
  assumes "\<not> NDEBUG \<longrightarrow> (\<forall>e_1<E_1. \<forall>e_2. Suc e_2 < E_2 \<longrightarrow>
        (\<forall>a b. index_at info stride E_2 e_1 e_2 = Inr a \<longrightarrow>
               index_at info stride E_2 e_1 (Suc e_2) = Inr b \<longrightarrow> a \<le> b))"
  shows "segment_coo_kernel NDEBUG reduce info stride src E_1 E_2 K N out ao \<noteq> Inl AssertionFailed"
proof -
  have "foldE (coo_block NDEBUG R info stride src E_2 K N) [0..<E_1] st \<noteq> Inl AssertionFailed" for R st
    using assms
    by (intro foldE_upt_no_error [where I = "\<lambda>_ _. True"] coo_block_no_assert) simp_all
  then show ?thesis
    by (auto simp: segment_coo_kernel_def AT_DISPATCH_REDUCTION_TYPES_def bnd_eq_Inl
        reduce2REDUCE_at_def split: option.splits)
qed

lemma segment_coo_prepared:
  assumes "segment_coo_prepare src_in index_in out_in reduce = Inr (src, index, out, arg_out)"
    and "coo_dims src index out = Inr (E_1, E_2, K, N, stride)"
  shows "segment_coo NDEBUG src_in index_in out_in reduce
       = bnd (segment_coo_kernel NDEBUG reduce index stride (data src) E_1 E_2 K N
                (data out) (map_option data arg_out)) (\<lambda>st.
         Inr (out\<lparr>data := out_data st\<rparr>, with_data arg_out (arg_out_data st)))"
  using assms by (simp add: segment_coo_def)


lemma coo_prepare_Inr:
  assumes "segment_coo_prepare src_in index_in out_in reduce = Inr (src, index, out, ao)"
  shows "src = contiguous src_in \<and> out = contiguous out_in \<and> dim index = dim index_in \<and>
         dim index_in \<le> dim src_in \<and> data index = data index_in \<and>
         sizes index = fold (\<lambda>i sz. sz[i := sizes src_in ! i]) [0..<dim index_in] (sizes index_in) \<and>
         check_sizes src out (int (dim index) - 1) = Inr () \<and>
         alloc_arg_out src out (int (dim index) - 1) reduce = Inr ao"
proof -
  from assms have le: "dim index_in \<le> dim src_in"
    by (auto simp: segment_coo_prepare_def split: if_splits)
  from assms le have
    ex: "expand index_in (fold (\<lambda>i sz. sz[i := sizes src_in ! i]) [0..<dim index_in] (sizes index_in))
      = Inr index"
    and rest: "src = contiguous src_in" "out = contiguous out_in"
      "check_sizes src out (int (dim index) - 1) = Inr ()"
      "alloc_arg_out src out (int (dim index) - 1) reduce = Inr ao"
    by (auto simp: segment_coo_prepare_def Let_def bnd_eq_Inr)
  with expand_Inr [OF ex] le show ?thesis
    by (simp add: dim_def)
qed

subsection \<open>Claim on the groups the COO reducer does not visit\<close>




subsection \<open>Claim on the argument output\<close>

lemma alloc_arg_out_shape:
  assumes "alloc_arg_out src out d reduce = Inr arg_out"
  shows "(arg_out \<noteq> None \<longleftrightarrow> reduce = ''min'' \<or> reduce = ''max'') \<and>
         (\<forall>a. arg_out = Some a \<longrightarrow> sizes a = sizes out \<and>
            (\<exists>E. tsize src d = Inr E \<and> data a = replicate (numel out) (int E)))"
  using alloc_arg_out_Inr [OF assms]
  by (auto simp: reduce2REDUCE_eq_Some full_like_def split: if_splits)

lemma with_data_shape:
  assumes "rel_option (\<lambda>b b'. length b' = length b) (map_option data arg_out) buf"
  shows "(with_data arg_out buf \<noteq> None \<longleftrightarrow> arg_out \<noteq> None) \<and>
         (\<forall>a'. with_data arg_out buf = Some a' \<longrightarrow> (\<exists>a. arg_out = Some a \<and> sizes a' = sizes a))"
  using assms by (cases arg_out; cases buf) (auto simp: with_data_def)

lemma segment_csr_result:
  assumes "segment_csr src_in indptr_in out_opt reduce mem = Inr (out', arg_out')"
  shows "\<exists>src indptr out arg_out N K E last_size stride st.
           segment_csr_prepare src_in indptr_in out_opt reduce mem = Inr (src, indptr, out, arg_out) \<and>
           csr_dims src indptr out = Inr (N, K, E, last_size, stride) \<and>
           segment_csr_kernel reduce indptr stride last_size (data src) N K E
             (data out) (map_option data arg_out) = Inr st \<and>
           out' = out\<lparr>data := out_data st\<rparr> \<and> arg_out' = with_data arg_out (arg_out_data st)"
  using assms by (auto simp: segment_csr_def bnd_eq_Inr)

lemma segment_coo_result:
  assumes "segment_coo NDEBUG src_in index_in out_in reduce = Inr (out', arg_out')"
  shows "\<exists>src index out arg_out E_1 E_2 K N stride st.
           segment_coo_prepare src_in index_in out_in reduce = Inr (src, index, out, arg_out) \<and>
           coo_dims src index out = Inr (E_1, E_2, K, N, stride) \<and>
           segment_coo_kernel NDEBUG reduce index stride (data src) E_1 E_2 K N
             (data out) (map_option data arg_out) = Inr st \<and>
           out' = out\<lparr>data := out_data st\<rparr> \<and> arg_out' = with_data arg_out (arg_out_data st)"
  using assms by (auto simp: segment_coo_def bnd_eq_Inr)

text \<open>
  C8. Both reducers allocate the argument output exactly when the reduction string is
  \<^verbatim>\<open>min\<close> or \<^verbatim>\<open>max\<close>: after the preparation (lines 111-116 and 183-188), before the kernel
  runs, it has the sizes of \<open>out\<close> and every entry is \<^verbatim>\<open>src.size(reduce_dim)\<close>. The argument
  output that a call returns is present for \<^verbatim>\<open>min\<close> and \<^verbatim>\<open>max\<close> only, and has the sizes of
  the returned value output, for \<^verbatim>\<open>segment_coo\<close> with and without \<^verbatim>\<open>NDEBUG\<close>.
\<close>

theorem arg_out_present_iff_min_or_max:
  "(segment_csr_prepare src_in indptr_in out_opt reduce mem = Inr (src, indptr, out, arg_out) \<longrightarrow>
      (arg_out \<noteq> None \<longleftrightarrow> reduce = ''min'' \<or> reduce = ''max'') \<and>
      (\<forall>a. arg_out = Some a \<longrightarrow> sizes a = sizes out \<and>
         (\<exists>E. tsize src (int (dim indptr) - 1) = Inr E \<and> data a = replicate (numel out) (int E)))) \<and>
   (segment_csr src_in indptr_in out_opt reduce mem = Inr (out', arg_out') \<longrightarrow>
      (arg_out' \<noteq> None \<longleftrightarrow> reduce = ''min'' \<or> reduce = ''max'') \<and>
      (\<forall>a. arg_out' = Some a \<longrightarrow> sizes a = sizes out')) \<and>
   (segment_coo_prepare csrc_in index_in out_in reduce = Inr (csrc, index, cout, carg_out) \<longrightarrow>
      (carg_out \<noteq> None \<longleftrightarrow> reduce = ''min'' \<or> reduce = ''max'') \<and>
      (\<forall>a. carg_out = Some a \<longrightarrow> sizes a = sizes cout \<and>
         (\<exists>E. tsize csrc (int (dim index) - 1) = Inr E \<and> data a = replicate (numel cout) (int E)))) \<and>
   (segment_coo NDEBUG csrc_in index_in out_in reduce = Inr (cout', carg_out') \<longrightarrow>
      (carg_out' \<noteq> None \<longleftrightarrow> reduce = ''min'' \<or> reduce = ''max'') \<and>
      (\<forall>a. carg_out' = Some a \<longrightarrow> sizes a = sizes cout'))"
proof (intro conjI impI)
  assume "segment_csr_prepare src_in indptr_in out_opt reduce mem = Inr (src, indptr, out, arg_out)"
  from csr_prepare_Inr [OF this]
  have al: "alloc_arg_out src out (int (dim indptr) - 1) reduce = Inr arg_out"
    by blast
  from alloc_arg_out_shape [OF al]
  show "arg_out \<noteq> None \<longleftrightarrow> reduce = ''min'' \<or> reduce = ''max''"
    "\<forall>a. arg_out = Some a \<longrightarrow> sizes a = sizes out \<and>
         (\<exists>E. tsize src (int (dim indptr) - 1) = Inr E \<and> data a = replicate (numel out) (int E))"
    by blast+
next
  assume "segment_coo_prepare csrc_in index_in out_in reduce = Inr (csrc, index, cout, carg_out)"
  from coo_prepare_Inr [OF this]
  have al: "alloc_arg_out csrc cout (int (dim index) - 1) reduce = Inr carg_out"
    by blast
  from alloc_arg_out_shape [OF al]
  show "carg_out \<noteq> None \<longleftrightarrow> reduce = ''min'' \<or> reduce = ''max''"
    "\<forall>a. carg_out = Some a \<longrightarrow> sizes a = sizes cout \<and>
         (\<exists>E. tsize csrc (int (dim index) - 1) = Inr E \<and> data a = replicate (numel cout) (int E))"
    by blast+
next
  assume "segment_csr src_in indptr_in out_opt reduce mem = Inr (out', arg_out')"
  from segment_csr_result [OF this] obtain s i out0 ao N K E last_size stride st where
    prep: "segment_csr_prepare src_in indptr_in out_opt reduce mem = Inr (s, i, out0, ao)"
    and st: "segment_csr_kernel reduce i stride last_size (data s) N K E
             (data out0) (map_option data ao) = Inr st"
    and res: "out' = out0\<lparr>data := out_data st\<rparr>" "arg_out' = with_data ao (arg_out_data st)"
    by blast
  from csr_prepare_Inr [OF prep] have "alloc_arg_out s out0 (int (dim i) - 1) reduce = Inr ao"
    by blast
  note sh = alloc_arg_out_shape [OF this]
  from csr_kernel_shape [OF st]
  have "rel_option (\<lambda>b b'. length b' = length b) (map_option data ao) (arg_out_data st)"
    by simp
  note wd = with_data_shape [OF this]
  from sh wd res show "arg_out' \<noteq> None \<longleftrightarrow> reduce = ''min'' \<or> reduce = ''max''"
    by simp
  from sh wd res show "\<forall>a. arg_out' = Some a \<longrightarrow> sizes a = sizes out'"
    by auto
next
  assume "segment_coo NDEBUG csrc_in index_in out_in reduce = Inr (cout', carg_out')"
  from segment_coo_result [OF this] obtain s i out0 ao E_1 E_2 K N stride st where
    prep: "segment_coo_prepare csrc_in index_in out_in reduce = Inr (s, i, out0, ao)"
    and st: "segment_coo_kernel NDEBUG reduce i stride (data s) E_1 E_2 K N
             (data out0) (map_option data ao) = Inr st"
    and res: "cout' = out0\<lparr>data := out_data st\<rparr>" "carg_out' = with_data ao (arg_out_data st)"
    by blast
  from coo_prepare_Inr [OF prep] have "alloc_arg_out s out0 (int (dim i) - 1) reduce = Inr ao"
    by blast
  note sh = alloc_arg_out_shape [OF this]
  from coo_kernel_effect [OF st]
  have "rel_option (\<lambda>b b'. length b' = length b) (map_option data ao) (arg_out_data st)"
    by simp
  note wd = with_data_shape [OF this]
  from sh wd res show "carg_out' \<noteq> None \<longleftrightarrow> reduce = ''min'' \<or> reduce = ''max''"
    by simp
  from sh wd res show "\<forall>a. carg_out' = Some a \<longrightarrow> sizes a = sizes cout'"
    by auto
qed

theorem arg_out_present_iff_min_or_max_witness:
  "segment_csr_prepare (tensor_1d [5, 1, 9, 2]) (tensor_1d [0, 2, 4]) None ''max'' (\<lambda>_. 0)
     = Inr (tensor_1d [5, 1, 9, 2], tensor_1d [0, 2, 4], tensor_1d [0, 0], Some (tensor_1d [4, 4])) \<and>
   segment_csr (tensor_1d [5, 1, 9, 2]) (tensor_1d [0, 2, 4]) None ''max'' (\<lambda>_. 0)
     = Inr (tensor_1d [5, 9], Some (tensor_1d [0, 2])) \<and>
   segment_coo_prepare (tensor_1d [1, 2, 3]) (tensor_1d [0, 0, 1]) (tensor_1d [0, 0, 0]) ''max''
     = Inr (tensor_1d [1, 2, 3], tensor_1d [0, 0, 1], tensor_1d [0, 0, 0], Some (tensor_1d [3, 3, 3])) \<and>
   segment_coo False (tensor_1d [1, 2, 3]) (tensor_1d [0, 0, 1]) (tensor_1d [0, 0, 0]) ''max''
     = Inr (tensor_1d [2, 3, 0], Some (tensor_1d [1, 2, 3])) \<and>
   sizes (tensor_1d [4, 4 :: int]) = sizes (tensor_1d [0, 0 :: scalar_t]) \<and>
   sizes (tensor_1d [0, 2 :: int]) = sizes (tensor_1d [5, 9 :: scalar_t]) \<and>
   sizes (tensor_1d [3, 3, 3 :: int]) = sizes (tensor_1d [0, 0, 0 :: scalar_t]) \<and>
   sizes (tensor_1d [1, 2, 3 :: int]) = sizes (tensor_1d [2, 3, 0 :: scalar_t])"
proof -
  let ?src = "tensor_1d [5, 1, 9, 2 :: scalar_t]" and ?ptr = "tensor_1d [0, 2, 4 :: int]"
  let ?val = "tensor_1d [1, 2, 3 :: scalar_t]" and ?idx = "tensor_1d [0, 0, 1 :: int]"
  let ?out = "tensor_1d [0, 0, 0 :: scalar_t]"
  let ?mem = "\<lambda>_ :: nat. 0 :: scalar_t"
  have p1: "segment_csr_prepare ?src ?ptr None ''max'' ?mem
     = Inr (?src, ?ptr, tensor_1d [0, 0], Some (tensor_1d [4, 4]))"
    by code_simp
  have r1: "segment_csr ?src ?ptr None ''max'' ?mem = Inr (tensor_1d [5, 9], Some (tensor_1d [0, 2]))"
    by code_simp
  have p2: "segment_coo_prepare ?val ?idx ?out ''max'' = Inr (?val, ?idx, ?out, Some (tensor_1d [3, 3, 3]))"
    by code_simp
  have r2: "segment_coo False ?val ?idx ?out ''max'' = Inr (tensor_1d [2, 3, 0], Some (tensor_1d [1, 2, 3]))"
    by code_simp
  note inst = arg_out_present_iff_min_or_max [where NDEBUG = False and src_in = "?src" and indptr_in = "?ptr"
      and out_opt = None and reduce = "''max''" and mem = "?mem" and src = "?src" and indptr = "?ptr"
      and out = "tensor_1d [0, 0]" and arg_out = "Some (tensor_1d [4, 4])"
      and out' = "tensor_1d [5, 9]" and arg_out' = "Some (tensor_1d [0, 2])"
      and csrc_in = "?val" and index_in = "?idx" and out_in = "?out" and csrc = "?val"
      and index = "?idx" and cout = "?out" and carg_out = "Some (tensor_1d [3, 3, 3])"
      and cout' = "tensor_1d [2, 3, 0]" and carg_out' = "Some (tensor_1d [1, 2, 3])"]
  from inst p1 have "sizes (tensor_1d [4, 4 :: int]) = sizes (tensor_1d [0, 0 :: scalar_t])"
    by blast
  moreover from inst r1 have "sizes (tensor_1d [0, 2 :: int]) = sizes (tensor_1d [5, 9 :: scalar_t])"
    by blast
  moreover from inst p2 have "sizes (tensor_1d [3, 3, 3 :: int]) = sizes ?out"
    by blast
  moreover from inst r2 have "sizes (tensor_1d [1, 2, 3 :: int]) = sizes (tensor_1d [2, 3, 0 :: scalar_t])"
    by blast
  ultimately show ?thesis
    using p1 r1 p2 r2 by blast
qed

subsection \<open>The COO reducer on well-formed buffers\<close>

lemma coo_wf_frame:
  assumes "coo_wf R L s" "coo_frame W s t"
  shows "coo_wf R L t"
  using assms by (cases "arg_out_data s"; cases "arg_out_data t") (auto simp: coo_wf_def coo_frame_def)

lemma mixed_radix_less:
  fixes a b A B :: nat
  assumes "a < A" "b < B"
  shows "a * B + b < A * B"
proof -
  have "a * B + b < a * B + B"
    using assms(2) by simp
  also have "\<dots> = Suc a * B"
    by simp
  also have "\<dots> \<le> A * B"
    using assms(1) by (intro mult_le_mono1) simp
  finally show ?thesis .
qed

lemma lane_position_less:
  fixes e_1 g k E_1 N K :: nat
  assumes "e_1 < E_1" "g < N" "k < K"
  shows "e_1 * N * K + g * K + k < E_1 * N * K"
proof -
  have "g * K + k < N * K"
    using assms(2,3) by (rule mixed_radix_less)
  with assms(1) have "e_1 * (N * K) + (g * K + k) < E_1 * (N * K)"
    by (rule mixed_radix_less)
  then show ?thesis
    by (simp add: mult.assoc add.assoc)
qed

lemma foldE_upt_errors:
  assumes "foldE f [0..<n] s = Inl e"
    and "I 0 s"
    and "\<And>i t t'. i < n \<Longrightarrow> I i t \<Longrightarrow> f i t = Inr t' \<Longrightarrow> I (Suc i) t'"
    and "\<And>i t e. i < n \<Longrightarrow> I i t \<Longrightarrow> f i t = Inl e \<Longrightarrow> P e"
  shows "P e"
  using assms
proof (induction n)
  case 0
  then show ?case by simp
next
  case (Suc n)
  show ?case
  proof (cases "foldE f [0..<n] s")
    case (Inl e')
    with Suc.prems(1) have "foldE f [0..<n] s = Inl e"
      by simp
    then show ?thesis
    proof (rule Suc.IH)
      show "I 0 s"
        by (rule Suc.prems(2))
    next
      fix i t t'
      assume "i < n" "I i t" "f i t = Inr t'"
      then show "I (Suc i) t'"
        using Suc.prems(3) [of i t t'] by simp
    next
      fix i t e''
      assume "i < n" "I i t" "f i t = Inl e''"
      then show "P e''"
        using Suc.prems(4) [of i t e''] by simp
    qed
  next
    case (Inr t)
    then have "I n t"
      using Suc.prems(2)
      by (rule foldE_upt_inv [where I = I]) (use Suc.prems(3) in simp)
    moreover from Inr Suc.prems(1) have "f n t = Inl e"
      by simp
    ultimately show ?thesis
      using Suc.prems(4) by blast
  qed
qed

lemma coo_update_lanes_total:
  assumes "e_1 < E_1" "e_2 < E_2" "E_1 * E_2 * K \<le> length src"
  shows "foldE (coo_update_lane R src E_2 K e_1 e_2) [0..<K] st \<noteq> Inl e"
proof (rule foldE_no_error)
  fix k t
  assume "k \<in> set [0..<K]"
  then have "k < K"
    by simp
  with lane_position_less [OF assms(1,2) this] assms(3)
  have "e_1 * E_2 * K + e_2 * K + k < length src"
    by simp
  then have "load src (int (e_1 * E_2 * K + e_2 * K + k)) = Inr (src ! (e_1 * E_2 * K + e_2 * K + k))"
    unfolding load_def by (simp del: of_nat_add of_nat_mult)
  then show "coo_update_lane R src E_2 K e_1 e_2 k t \<noteq> Inl e"
    by (simp add: coo_update_lane_alt)
qed

lemma coo_write_lane_total:
  assumes wf: "coo_wf R L st" and L: "E_1 * N * K \<le> L"
    and b: "e_1 < E_1" "idx st = int g" "g < N" "k < K"
  shows "\<exists>st'. coo_write_lane R N K e_1 e_2 k st = Inr st'"
proof -
  let ?p = "e_1 * N * K + g * K + k"
  let ?c = "word_of_int (int e_2 + 1 - row_start st) :: 32 word"
  have pos: "int (e_1 * N * K) + idx st * int K + int k = int ?p"
    by (simp add: b(2))
  from lane_position_less [OF b(1,3,4)] L have p: "?p < L"
    by simp
  show ?thesis
  proof (cases "writes_arg R ?c")
    case True
    with wf obtain a where "arg_out_data st = Some a" "length a = L"
      by (auto simp: coo_wf_def writes_arg_def)
    with True wf p show ?thesis
      unfolding coo_write_lane_eq_Inr pos Let_def
      by (simp add: coo_wf_def del: of_nat_add of_nat_mult)
  next
    case False
    with wf p show ?thesis
      unfolding coo_write_lane_eq_Inr pos Let_def
      by (simp add: coo_wf_def del: of_nat_add of_nat_mult)
  qed
qed

lemma coo_write_lanes_total:
  assumes wf: "coo_wf R L st" and L: "E_1 * N * K \<le> L"
    and b: "e_1 < E_1" "idx st = int g" "g < N"
  shows "foldE (coo_write_lane R N K e_1 e_2) [0..<K] st \<noteq> Inl e"
proof
  let ?I = "\<lambda>(i :: nat) t. coo_wf R L t \<and> idx t = int g"
  assume "foldE (coo_write_lane R N K e_1 e_2) [0..<K] st = Inl e"
  then show False
  proof (rule foldE_upt_errors [where I = ?I and P = "\<lambda>_. False"])
    show "?I 0 st"
      using wf b(2) by simp
  next
    fix k t t'
    assume "k < K" "?I k t" "coo_write_lane R N K e_1 e_2 k t = Inr t'"
    with coo_write_lane_frame [of R N K e_1 e_2 k t t'] show "?I (Suc k) t'"
      by (auto intro: coo_wf_frame)
  next
    fix k t e'
    assume "k < K" "?I k t" "coo_write_lane R N K e_1 e_2 k t = Inl e'"
    with coo_write_lane_total [OF _ L b(1) _ b(3), of R t k e_2] show False
      by auto
  qed
qed

lemma coo_seed_lane_total:
  assumes "length (out_data st) = L" "E_1 * N * K \<le> L" "e_1 < E_1" "g < N" "k < K"
  shows "\<exists>st'. coo_seed_lane (int (e_1 * N * K) + int g * int K + int k) k st = Inr st'"
proof -
  from lane_position_less [OF assms(3-5)] assms(1,2)
  have "e_1 * N * K + g * K + k < length (out_data st)"
    by simp
  then have "load (out_data st) (int (e_1 * N * K + g * K + k))
      = Inr (out_data st ! (e_1 * N * K + g * K + k))"
    unfolding load_def by (simp del: of_nat_add of_nat_mult)
  then show ?thesis
    by (simp add: coo_seed_lane_def)
qed

lemma coo_write_seed_lanes_total:
  assumes wf: "coo_wf R L st" and L: "E_1 * N * K \<le> L"
    and b: "e_1 < E_1" "idx st = int g" "g < N" "g' < N"
  shows "foldE (\<lambda>k st'. bnd (coo_write_lane R N K e_1 e_2 k st')
                  (coo_seed_lane (int (e_1 * N * K) + int g' * int K + int k) k))
           [0..<K] st \<noteq> Inl e"
proof
  let ?f = "\<lambda>k st'. bnd (coo_write_lane R N K e_1 e_2 k st')
                  (coo_seed_lane (int (e_1 * N * K) + int g' * int K + int k) k)"
  let ?I = "\<lambda>(i :: nat) t. coo_wf R L t \<and> idx t = int g"
  assume "foldE ?f [0..<K] st = Inl e"
  then show False
  proof (rule foldE_upt_errors [where I = ?I and P = "\<lambda>_. False"])
    show "?I 0 st"
      using wf b(2) by simp
  next
    fix k t t'
    assume k: "k < K" and inv: "?I k t" and step: "?f k t = Inr t'"
    from step obtain u where u: "coo_write_lane R N K e_1 e_2 k t = Inr u"
      and t': "coo_seed_lane (int (e_1 * N * K) + int g' * int K + int k) k u = Inr t'"
      by (auto simp: bnd_eq_Inr)
    from coo_write_lane_frame [OF u k] inv have "coo_wf R L u" "idx u = int g"
      by (auto intro: coo_wf_frame)
    with coo_seed_lane_frame [OF t', of "\<lambda>_. True"] show "?I (Suc k) t'"
      by (auto intro: coo_wf_frame)
  next
    fix k t e'
    assume k: "k < K" and inv: "?I k t" and fail: "?f k t = Inl e'"
    from coo_write_lane_total [OF _ L b(1) _ b(3) k, of R t e_2] inv obtain u where
      u: "coo_write_lane R N K e_1 e_2 k t = Inr u"
      by auto
    from coo_write_lane_frame [OF u k] inv have "length (out_data u) = L"
      by (auto simp: coo_frame_def coo_wf_def)
    from coo_seed_lane_total [OF this L b(1,4) k] u fail show False
      by auto
  qed
qed

lemma coo_step_only_assert:
  assumes wf: "coo_wf R L st" and L: "E_1 * N * K \<le> L" and src: "E_1 * E_2 * K \<le> length src"
    and b: "e_1 < E_1" "j < E_2" "idx st = int g" "g < N"
    and nx: "int j \<noteq> int E_2 - 1 \<Longrightarrow>
        \<exists>g'<N. load (data info) (offset + (int j + 1) * stride) = Inr (int g')"
    and fail: "coo_step NDEBUG R info stride offset src E_2 K N e_1 j st = Inl e"
  shows "e = AssertionFailed \<and> \<not> NDEBUG"
proof -
  from coo_update_lanes_total [OF b(1,2) src] obtain s1 where
    s1: "foldE (coo_update_lane R src E_2 K e_1 j) [0..<K] st = Inr s1"
    by (cases "foldE (coo_update_lane R src E_2 K e_1 j) [0..<K] st") auto
  from coo_update_lanes_frame [OF s1, of "\<lambda>_. True"] wf b(3)
  have wf1: "coo_wf R L s1" and i1: "idx s1 = int g"
    by (auto intro: coo_wf_frame)
  note wr = coo_write_lanes_total [OF wf1 L b(1) i1 b(4)]
  show ?thesis
  proof (cases "int j = int E_2 - 1")
    case True
    with fail s1 wr show ?thesis
      by (simp add: coo_step_def)
  next
    case False
    from nx [OF False] obtain g' where g': "g' < N"
      and ld: "load (data info) (offset + (int j + 1) * stride) = Inr (int g')"
      by blast
    note ws = coo_write_seed_lanes_total [OF wf1 L b(1) i1 b(4) g']
    show ?thesis
    proof (cases "\<not> NDEBUG \<and> \<not> idx s1 \<le> int g'")
      case True
      with fail s1 ld \<open>int j \<noteq> int E_2 - 1\<close> show ?thesis
        by (simp add: coo_step_def)
    next
      case False
      show ?thesis
      proof (cases "idx s1 = int g'")
        case True
        with fail s1 ld \<open>int j \<noteq> int E_2 - 1\<close> show ?thesis
          by (simp add: coo_step_def)
      next
        case neq: False
        from ws [of j] obtain s3 where
          "foldE (\<lambda>k st'. bnd (coo_write_lane R N K e_1 j k st')
                  (coo_seed_lane (int (e_1 * N * K) + int g' * int K + int k) k)) [0..<K] s1 = Inr s3"
          by (cases "foldE (\<lambda>k st'. bnd (coo_write_lane R N K e_1 j k st')
                  (coo_seed_lane (int (e_1 * N * K) + int g' * int K + int k) k)) [0..<K] s1") auto
        with fail s1 ld \<open>int j \<noteq> int E_2 - 1\<close> False neq show ?thesis
          by (auto simp: coo_step_def)
      qed
    qed
  qed
qed

lemma coo_block_only_assert:
  assumes wf: "coo_wf R L st0" and L: "E_1 * N * K \<le> L" and src: "E_1 * E_2 * K \<le> length src"
    and b: "e_1 < E_1" "0 < E_2"
    and reads: "\<forall>e_2<E_2. \<exists>g<N. index_at info stride E_2 e_1 e_2 = Inr (int g)"
    and fail: "coo_block NDEBUG R info stride src E_2 K N e_1 st0 = Inl e"
  shows "e = AssertionFailed \<and> \<not> NDEBUG"
proof -
  let ?off = "IndexToOffset_get (e_1 * E_2) info"
  let ?W = "block_slots info stride E_2 N K e_1"
  from reads b(2) obtain g0 where g0: "g0 < N" and "index_at info stride E_2 e_1 0 = Inr (int g0)"
    by blast
  then have first: "load (data info) ?off = Inr (int g0)"
    by (simp add: index_at_def)
  let ?seed = "\<lambda>k. coo_seed_lane (int (e_1 * N * K + k)) k"
  have "foldE ?seed [0..<K] (st0\<lparr>idx := int g0\<rparr>) \<noteq> Inl e'" for e'
  proof
    assume "foldE ?seed [0..<K] (st0\<lparr>idx := int g0\<rparr>) = Inl e'"
    then show False
    proof (rule foldE_upt_errors [where I = "\<lambda>_ t. length (out_data t) = L" and P = "\<lambda>_. False"])
      show "length (out_data (st0\<lparr>idx := int g0\<rparr>)) = L"
        using wf by (simp add: coo_wf_def)
    next
      fix k t t'
      assume "length (out_data t) = L" "?seed k t = Inr t'"
      with coo_seed_lane_frame [of "int (e_1 * N * K + k)" k t t'] show "length (out_data t') = L"
        by simp
    next
      fix k t e''
      assume k: "k < K" and len: "length (out_data t) = L" and f: "?seed k t = Inl e''"
      from g0 have "0 < N"
        by simp
      from coo_seed_lane_total [OF len L b(1) this k] f show False
        by simp
    qed
  qed
  then obtain s1 where s1: "foldE ?seed [0..<K] (st0\<lparr>idx := int g0\<rparr>) = Inr s1"
    by (cases "foldE ?seed [0..<K] (st0\<lparr>idx := int g0\<rparr>)") auto
  from coo_seed_lanes_frame [OF s1, of ?W]
  have fr1: "coo_frame ?W (st0\<lparr>idx := int g0\<rparr>) s1" and i1: "idx s1 = int g0"
    by simp_all
  then have init: "coo_block_inv NDEBUG info stride E_2 N K e_1 st0 0 (s1\<lparr>row_start := 0\<rparr>)"
    using first by (simp add: coo_block_inv_def coo_frame_def index_at_def)
  from fail first s1
  have steps: "foldE (coo_step NDEBUG R info stride ?off src E_2 K N e_1) [0..<E_2]
        (s1\<lparr>row_start := 0\<rparr>) = Inl e"
    by (simp add: coo_block_def)
  then show ?thesis
  proof (rule foldE_upt_errors [where I = "coo_block_inv NDEBUG info stride E_2 N K e_1 st0"
        and P = "\<lambda>e. e = AssertionFailed \<and> \<not> NDEBUG"])
    show "coo_block_inv NDEBUG info stride E_2 N K e_1 st0 0 (s1\<lparr>row_start := 0\<rparr>)"
      by (rule init)
  next
    fix j t t'
    assume "j < E_2" "coo_block_inv NDEBUG info stride E_2 N K e_1 st0 j t"
      "coo_step NDEBUG R info stride ?off src E_2 K N e_1 j t = Inr t'"
    then show "coo_block_inv NDEBUG info stride E_2 N K e_1 st0 (Suc j) t'"
      by (intro coo_block_inv_step)
  next
    fix j t e'
    assume j: "j < E_2" and inv: "coo_block_inv NDEBUG info stride E_2 N K e_1 st0 j t"
      and f: "coo_step NDEBUG R info stride ?off src E_2 K N e_1 j t = Inl e'"
    from inv j have fr: "coo_frame ?W st0 t" and ix: "index_at info stride E_2 e_1 j = Inr (idx t)"
      by (simp_all add: coo_block_inv_def)
    from wf fr have wft: "coo_wf R L t"
      by (rule coo_wf_frame)
    from reads j obtain g where "g < N" "index_at info stride E_2 e_1 j = Inr (int g)"
      by blast
    with ix have g: "g < N" "idx t = int g"
      by simp_all
    have nx: "\<exists>g'<N. load (data info) (?off + (int j + 1) * stride) = Inr (int g')"
      if "int j \<noteq> int E_2 - 1"
    proof -
      from that j have "Suc j < E_2"
        by linarith
      with reads obtain g' where "g' < N" "index_at info stride E_2 e_1 (Suc j) = Inr (int g')"
        by blast
      then show ?thesis
        by (auto simp: index_at_def add.commute)
    qed
    from coo_step_only_assert [OF wft L src b(1) j g(2,1) nx f]
    show "e' = AssertionFailed \<and> \<not> NDEBUG"
      by simp
  qed
qed

lemma coo_kernel_only_assert:
  assumes out: "E_1 * N * K \<le> length out" and src: "E_1 * E_2 * K \<le> length src"
    and ao: "\<forall>R. reduce2REDUCE reduce = Some R \<longrightarrow> R = MIN' \<or> R = MAX' \<longrightarrow>
        (\<exists>b. ao = Some b \<and> length b = length out)"
    and known: "reduce2REDUCE reduce \<noteq> None"
    and E_2: "0 < E_2"
    and reads: "\<forall>e_1<E_1. \<forall>e_2<E_2. \<exists>g<N. index_at info stride E_2 e_1 e_2 = Inr (int g)"
    and fail: "segment_coo_kernel NDEBUG reduce info stride src E_1 E_2 K N out ao = Inl e"
  shows "e = AssertionFailed \<and> \<not> NDEBUG"
proof -
  let ?st0 = "\<lparr>vals = replicate K 0, args = replicate K 0, out_data = out, arg_out_data = ao,
      idx = 0, row_start = 0\<rparr>"
  from known obtain R where R: "reduce2REDUCE reduce = Some R"
    by auto
  with fail have fold: "foldE (coo_block NDEBUG R info stride src E_2 K N) [0..<E_1] ?st0 = Inl e"
    by (simp add: segment_coo_kernel_def AT_DISPATCH_REDUCTION_TYPES_def reduce2REDUCE_at_def)
  then show ?thesis
  proof (rule foldE_upt_errors [where I = "\<lambda>_. coo_wf R (length out)"
        and P = "\<lambda>e. e = AssertionFailed \<and> \<not> NDEBUG"])
    show "coo_wf R (length out) ?st0"
      using ao R by (simp add: coo_wf_def)
  next
    fix i t t'
    assume "coo_wf R (length out) t" "coo_block NDEBUG R info stride src E_2 K N i t = Inr t'"
    with coo_block_effect [of NDEBUG R info stride src E_2 K N i t t'] show "coo_wf R (length out) t'"
      by (auto intro: coo_wf_frame)
  next
    fix i t e'
    assume "i < E_1" "coo_wf R (length out) t" "coo_block NDEBUG R info stride src E_2 K N i t = Inl e'"
    with coo_block_only_assert [OF _ out src _ E_2, where R = R and ?st0.0 = t and ?e_1.0 = i
        and info = info and stride = stride and NDEBUG = NDEBUG and e = e'] reads
    show "e' = AssertionFailed \<and> \<not> NDEBUG"
      by simp
  qed
qed

lemma coo_dims_Inr:
  assumes "coo_dims src index out = Inr (E_1, E_2, K, N, stride)"
  shows "tsize src (int (dim index) - 1) = Inr E_2 \<and> E_2 \<noteq> 0 \<and> E_1 = numel index div E_2 \<and>
         numel index \<noteq> 0 \<and> K = numel src div numel index \<and>
         tsize out (int (dim index) - 1) = Inr N \<and>
         load (strides index) (int (dim index) - 1) = Inr stride"
  using assms by (auto simp: coo_dims_def Let_def bnd_eq_Inr split: if_splits)

lemma coo_blocks_within_src:
  assumes "coo_dims src index out = Inr (E_1, E_2, K, N, stride)"
  shows "E_1 * E_2 * K \<le> numel src"
proof -
  from coo_dims_Inr [OF assms] have E_1: "E_1 = numel index div E_2"
    and K: "K = numel src div numel index"
    by simp_all
  have "E_1 * E_2 \<le> numel index"
    by (simp add: E_1)
  then have "E_1 * E_2 * K \<le> numel index * K"
    by (rule mult_le_mono1)
  also have "\<dots> \<le> numel src"
    by (simp add: K)
  finally show ?thesis .
qed

lemma segment_coo_Inl:
  assumes "segment_coo_prepare src_in index_in out_in reduce = Inr (src, index, out, arg_out)"
    and "coo_dims src index out = Inr (E_1, E_2, K, N, stride)"
  shows "segment_coo NDEBUG src_in index_in out_in reduce = Inl e \<longleftrightarrow>
         segment_coo_kernel NDEBUG reduce index stride (data src) E_1 E_2 K N
           (data out) (map_option data arg_out) = Inl e"
  unfolding segment_coo_prepared [OF assms] by (auto simp: bnd_eq_Inl)

subsection \<open>Claim on the order of the index\<close>

lemma coo_kernel_sorted_of_result:
  assumes "segment_coo_kernel False reduce info stride src E_1 E_2 K N out ao = Inr st"
    and "e_1 < E_1" "Suc e_2 < E_2"
    and "index_at info stride E_2 e_1 e_2 = Inr a" "index_at info stride E_2 e_1 (Suc e_2) = Inr b"
  shows "a \<le> b"
proof -
  from coo_kernel_effect [OF assms(1)] assms(2) have "block_sorted info stride E_2 e_1"
    by blast
  with assms(3-5) show ?thesis
    unfolding block_sorted_def by blast
qed

lemma coo_buffers_of_prepared:
  assumes "segment_coo_prepare src_in index_in out_in reduce = Inr (src, index, out, arg_out)"
    and "coo_dims src index out = Inr (E_1, E_2, K, N, stride)"
    and "E_1 * N * K \<le> numel out"
  shows "E_1 * N * K \<le> length (data out) \<and> E_1 * E_2 * K \<le> length (data src) \<and>
         reduce2REDUCE reduce \<noteq> None \<and> 0 < E_2 \<and>
         (\<forall>R. reduce2REDUCE reduce = Some R \<longrightarrow> R = MIN' \<or> R = MAX' \<longrightarrow>
            (\<exists>b. map_option data arg_out = Some b \<and> length b = length (data out)))"
proof -
  note prep = coo_prepare_Inr [OF assms(1)]
  from prep have sc: "src = contiguous src_in" "out = contiguous out_in"
    and al: "alloc_arg_out src out (int (dim index) - 1) reduce = Inr arg_out"
    by blast+
  from assms(3) have out: "E_1 * N * K \<le> length (data out)"
    by (simp add: sc)
  from coo_blocks_within_src [OF assms(2)] have src: "E_1 * E_2 * K \<le> length (data src)"
    by (simp add: sc)
  from alloc_arg_out_Inr [OF al]
  have known: "reduce2REDUCE reduce \<noteq> None"
    and ao: "\<forall>R. reduce2REDUCE reduce = Some R \<longrightarrow> R = MIN' \<or> R = MAX' \<longrightarrow>
        (\<exists>b. map_option data arg_out = Some b \<and> length b = length (data out))"
    by (auto simp: full_like_def sc)
  from coo_dims_Inr [OF assms(2)] have "0 < E_2"
    by simp
  with out src known ao show ?thesis
    by blast
qed

text \<open>
  C7. Inside a block \<^verbatim>\<open>segment_coo\<close> compares every index value with the next one, and
  line 230 asserts that it is not larger. What follows depends on the build.

  \<^item> Without \<^verbatim>\<open>NDEBUG\<close>: if the index of a prepared call decreases somewhere in a block, the
    call does not return a result; when the buffers hold the blocks and every index
    value lies in \<open>[0, N)\<close>, nothing else goes wrong before and the call ends in the
    failed assertion.
  \<^item> In both builds: if the index does not decrease anywhere in any block, the call never
    ends in the failed assertion.
  \<^item> With \<^verbatim>\<open>NDEBUG\<close>: no call ends in the failed assertion, and when the buffers hold the
    blocks and every index value lies in \<open>[0, N)\<close> the call returns a result, whatever
    the order of the index.
\<close>

theorem coo_asserts_sorted_index:
  assumes "segment_coo_prepare src_in index_in out_in reduce = Inr (src, index, out, arg_out)"
    and "coo_dims src index out = Inr (E_1, E_2, K, N, stride)"
  shows "(e_1 < E_1 \<longrightarrow> Suc e_2 < E_2 \<longrightarrow>
            index_at index stride E_2 e_1 e_2 = Inr a \<longrightarrow>
            index_at index stride E_2 e_1 (Suc e_2) = Inr b \<longrightarrow> b < a \<longrightarrow>
            (\<exists>e. segment_coo False src_in index_in out_in reduce = Inl e) \<and>
            (E_1 * N * K \<le> numel out \<longrightarrow>
             (\<forall>e_1<E_1. \<forall>e_2<E_2. \<exists>g<N. index_at index stride E_2 e_1 e_2 = Inr (int g)) \<longrightarrow>
             segment_coo False src_in index_in out_in reduce = Inl AssertionFailed)) \<and>
         ((\<forall>e_1<E_1. \<forall>e_2. Suc e_2 < E_2 \<longrightarrow>
             (\<forall>a b. index_at index stride E_2 e_1 e_2 = Inr a \<longrightarrow>
                    index_at index stride E_2 e_1 (Suc e_2) = Inr b \<longrightarrow> a \<le> b)) \<longrightarrow>
          segment_coo NDEBUG src_in index_in out_in reduce \<noteq> Inl AssertionFailed) \<and>
         segment_coo True src_in index_in out_in reduce \<noteq> Inl AssertionFailed \<and>
         (E_1 * N * K \<le> numel out \<longrightarrow>
          (\<forall>e_1<E_1. \<forall>e_2<E_2. \<exists>g<N. index_at index stride E_2 e_1 e_2 = Inr (int g)) \<longrightarrow>
          (\<exists>r. segment_coo True src_in index_in out_in reduce = Inr r))"
proof (intro conjI impI)
  let ?kernel = "\<lambda>NDEBUG. segment_coo_kernel NDEBUG reduce index stride (data src) E_1 E_2 K N
           (data out) (map_option data arg_out)"
  assume dec: "e_1 < E_1" "Suc e_2 < E_2" "index_at index stride E_2 e_1 e_2 = Inr a"
    "index_at index stride E_2 e_1 (Suc e_2) = Inr b" "b < a"
  have no_result: "?kernel False \<noteq> Inr st" for st
    using coo_kernel_sorted_of_result [OF _ dec(1-4)] dec(5) by fastforce
  then obtain e where e: "?kernel False = Inl e"
    by (cases "?kernel False") auto
  then show "\<exists>e. segment_coo False src_in index_in out_in reduce = Inl e"
    using segment_coo_Inl [OF assms] by blast
  assume big: "E_1 * N * K \<le> numel out"
    and reads: "\<forall>e_1<E_1. \<forall>e_2<E_2. \<exists>g<N. index_at index stride E_2 e_1 e_2 = Inr (int g)"
  from coo_buffers_of_prepared [OF assms big]
  have out: "E_1 * N * K \<le> length (data out)" and src: "E_1 * E_2 * K \<le> length (data src)"
    and known: "reduce2REDUCE reduce \<noteq> None" and E_2: "0 < E_2"
    and ao: "\<forall>R. reduce2REDUCE reduce = Some R \<longrightarrow> R = MIN' \<or> R = MAX' \<longrightarrow>
        (\<exists>b. map_option data arg_out = Some b \<and> length b = length (data out))"
    by blast+
  from coo_kernel_only_assert [OF out src ao known E_2 reads e]
  show "segment_coo False src_in index_in out_in reduce = Inl AssertionFailed"
    using e segment_coo_Inl [OF assms] by simp
next
  assume "\<forall>e_1<E_1. \<forall>e_2. Suc e_2 < E_2 \<longrightarrow>
             (\<forall>a b. index_at index stride E_2 e_1 e_2 = Inr a \<longrightarrow>
                    index_at index stride E_2 e_1 (Suc e_2) = Inr b \<longrightarrow> a \<le> b)"
  then have "segment_coo_kernel NDEBUG reduce index stride (data src) E_1 E_2 K N
           (data out) (map_option data arg_out) \<noteq> Inl AssertionFailed"
    by (intro coo_kernel_no_assert) simp
  then show "segment_coo NDEBUG src_in index_in out_in reduce \<noteq> Inl AssertionFailed"
    using segment_coo_Inl [OF assms] by simp
next
  have "segment_coo_kernel True reduce index stride (data src) E_1 E_2 K N
           (data out) (map_option data arg_out) \<noteq> Inl AssertionFailed"
    by (intro coo_kernel_no_assert) simp
  then show "segment_coo True src_in index_in out_in reduce \<noteq> Inl AssertionFailed"
    using segment_coo_Inl [OF assms] by simp
next
  let ?kernel = "segment_coo_kernel True reduce index stride (data src) E_1 E_2 K N
           (data out) (map_option data arg_out)"
  assume big: "E_1 * N * K \<le> numel out"
    and reads: "\<forall>e_1<E_1. \<forall>e_2<E_2. \<exists>g<N. index_at index stride E_2 e_1 e_2 = Inr (int g)"
  from coo_buffers_of_prepared [OF assms big]
  have out: "E_1 * N * K \<le> length (data out)" and src: "E_1 * E_2 * K \<le> length (data src)"
    and known: "reduce2REDUCE reduce \<noteq> None" and E_2: "0 < E_2"
    and ao: "\<forall>R. reduce2REDUCE reduce = Some R \<longrightarrow> R = MIN' \<or> R = MAX' \<longrightarrow>
        (\<exists>b. map_option data arg_out = Some b \<and> length b = length (data out))"
    by blast+
  have "?kernel \<noteq> Inl e" for e
    using coo_kernel_only_assert [OF out src ao known E_2 reads, of True e] by blast
  then obtain st where "?kernel = Inr st"
    by (cases ?kernel) auto
  then show "\<exists>r. segment_coo True src_in index_in out_in reduce = Inr r"
    unfolding segment_coo_prepared [OF assms] by simp
qed

lemma index_at_tensor_1d: "index_at (tensor_1d xs) 1 E_2 0 e_2 = load xs (int e_2)"
  by (simp add: index_at_def IndexToOffset_get_def)

theorem coo_asserts_sorted_index_witness:
  "segment_coo False (tensor_1d [4, 5]) (tensor_1d [1, 0]) (tensor_1d [3, 3, 0]) ''sum''
     = Inl AssertionFailed \<and>
   segment_coo False (tensor_1d [1, 2, 3]) (tensor_1d [0, 0, 1]) (tensor_1d [0, 0, 0]) ''sum''
     \<noteq> Inl AssertionFailed \<and>
   segment_coo True (tensor_1d [4, 5]) (tensor_1d [1, 0]) (tensor_1d [3, 3, 0]) ''sum''
     \<noteq> Inl AssertionFailed \<and>
   (\<exists>r. segment_coo True (tensor_1d [4, 5]) (tensor_1d [1, 0]) (tensor_1d [3, 3, 0]) ''sum'' = Inr r)"
proof -
  let ?src = "tensor_1d [4, 5 :: scalar_t]" and ?idx = "tensor_1d [1, 0 :: int]"
  let ?out = "tensor_1d [3, 3, 0 :: scalar_t]"
  have prep: "segment_coo_prepare ?src ?idx ?out ''sum'' = Inr (?src, ?idx, ?out, None)"
    by code_simp
  have dims: "coo_dims ?src ?idx ?out = Inr (1, 2, 1, 3, 1)"
    by code_simp
  have dec: "(0 :: nat) < 1" "Suc 0 < 2" "index_at ?idx 1 2 0 0 = Inr 1"
    "index_at ?idx 1 2 0 (Suc 0) = Inr 0" "(0 :: int) < 1"
    by (simp_all add: index_at_tensor_1d load_def)
  have big: "1 * 3 * 1 \<le> numel ?out"
    by simp
  have reads: "\<forall>e_1<1. \<forall>e_2<2. \<exists>g<3. index_at ?idx 1 2 e_1 e_2 = Inr (int g)"
  proof (intro allI impI)
    fix e_1 e_2 :: nat
    assume "e_1 < 1" "e_2 < 2"
    then have "e_1 = 0" "e_2 = 0 \<or> e_2 = 1"
      by auto
    then show "\<exists>g<3. index_at ?idx 1 2 e_1 e_2 = Inr (int g)"
    proof (elim disjE)
      assume "e_1 = 0" "e_2 = 0"
      then have "index_at ?idx 1 2 e_1 e_2 = Inr (int 1)"
        by (simp add: index_at_tensor_1d load_def)
      then show ?thesis
        by (intro exI [of _ 1]) simp
    next
      assume "e_1 = 0" "e_2 = 1"
      then have "index_at ?idx 1 2 e_1 e_2 = Inr (int 0)"
        by (simp add: index_at_tensor_1d load_def)
      then show ?thesis
        by (intro exI [of _ 0]) simp
    qed
  qed
  note unsorted = coo_asserts_sorted_index [OF prep dims, where ?e_1.0 = 0 and ?e_2.0 = 0 and a = 1 and b = 0]
  from unsorted have "1 * 3 * 1 \<le> numel ?out \<longrightarrow>
      (\<forall>e_1<1. \<forall>e_2<2. \<exists>g<3. index_at ?idx 1 2 e_1 e_2 = Inr (int g)) \<longrightarrow>
      segment_coo False ?src ?idx ?out ''sum'' = Inl AssertionFailed"
    using dec by simp
  with big reads have fails: "segment_coo False ?src ?idx ?out ''sum'' = Inl AssertionFailed"
    by simp
  from unsorted have quiet: "segment_coo True ?src ?idx ?out ''sum'' \<noteq> Inl AssertionFailed"
    by simp
  from unsorted have "1 * 3 * 1 \<le> numel ?out \<longrightarrow>
      (\<forall>e_1<1. \<forall>e_2<2. \<exists>g<3. index_at ?idx 1 2 e_1 e_2 = Inr (int g)) \<longrightarrow>
      (\<exists>r. segment_coo True ?src ?idx ?out ''sum'' = Inr r)"
    by simp
  with big reads have returns: "\<exists>r. segment_coo True ?src ?idx ?out ''sum'' = Inr r"
    by simp
  let ?src' = "tensor_1d [1, 2, 3 :: scalar_t]" and ?idx' = "tensor_1d [0, 0, 1 :: int]"
  let ?out' = "tensor_1d [0, 0, 0 :: scalar_t]"
  have prep': "segment_coo_prepare ?src' ?idx' ?out' ''sum'' = Inr (?src', ?idx', ?out', None)"
    by code_simp
  have dims': "coo_dims ?src' ?idx' ?out' = Inr (1, 3, 1, 3, 1)"
    by code_simp
  have sorted: "\<forall>e_1<1. \<forall>e_2. Suc e_2 < 3 \<longrightarrow>
             (\<forall>a b. index_at ?idx' 1 3 e_1 e_2 = Inr a \<longrightarrow>
                    index_at ?idx' 1 3 e_1 (Suc e_2) = Inr b \<longrightarrow> a \<le> b)"
  proof (intro allI impI)
    fix e_1 e_2 :: nat and a b :: int
    assume "e_1 < 1" "Suc e_2 < 3"
      and ab: "index_at ?idx' 1 3 e_1 e_2 = Inr a" "index_at ?idx' 1 3 e_1 (Suc e_2) = Inr b"
    then have "e_1 = 0" "e_2 = 0 \<or> e_2 = 1"
      by auto
    with ab show "a \<le> b"
      by (auto simp: index_at_tensor_1d load_def)
  qed
  from sorted
    coo_asserts_sorted_index [OF prep' dims', where NDEBUG = False, THEN conjunct2, THEN conjunct1]
  have "segment_coo False ?src' ?idx' ?out' ''sum'' \<noteq> Inl AssertionFailed"
    by (rule rev_mp)
  with fails quiet returns show ?thesis
    by (intro conjI)
qed

text \<open>
  With \<^verbatim>\<open>NDEBUG\<close> the decreasing index \<open>[1, 0]\<close> is accepted: the call returns a result, in
  which each of the two values was added to the entry \<open>out[0] = 3\<close> that line 210 and
  line 239 loaded, and no error is reported.
\<close>

theorem coo_ndebug_accepts_decreasing_index:
  "map (index_at (tensor_1d [1, 0]) 1 2 0) [0, 1] = [Inr 1, Inr 0] \<and>
   segment_coo True (tensor_1d [4, 5]) (tensor_1d [1, 0]) (tensor_1d [3, 3, 0]) ''sum''
     = Inr (tensor_1d [8, 7, 0], None)"
  by code_simp

end
